theory Spec2Isabelle
  imports Main "HOL-Library.Word"
begin

section \<open>Errors\<close>

text \<open>
  A Go panic and an error value returned by a library call are both values of one
  error type, so that every panic site of the source is a branch of the model.
\<close>

datatype error = Panic string | LibError string

section \<open>display.go: timeline items\<close>

type_synonym time = int

record issues_Comment =
  comment_ID :: "64 word"
  comment_CreatedAt :: time

record issues_Event =
  event_ID :: "64 word"
  event_CreatedAt :: time

text \<open>
  The field \<open>TimelineItem\<close> has type \<open>interface{}\<close>: its dynamic value is an
  \<open>issues.Comment\<close>, an \<open>issues.Event\<close>, or a value of any other dynamic type, of
  which only the type name (what \<open>%T\<close> prints) matters to the methods.
\<close>

datatype dynamic = Comment issues_Comment | Event issues_Event | OtherValue string

fun typeName :: "dynamic \<Rightarrow> string" where
  "typeName (Comment c) = ''issues.Comment''"
| "typeName (Event e) = ''issues.Event''"
| "typeName (OtherValue t) = t"

record timelineItem =
  TimelineItem :: dynamic

definition unknownItemType :: "dynamic \<Rightarrow> error" where
  "unknownItemType v = Panic (''unknown item type '' @ typeName v)"

definition TemplateName :: "timelineItem \<Rightarrow> error + string" where
  "TemplateName i =
     (case TimelineItem i of
        Comment c \<Rightarrow> Inr ''comment''
      | Event e \<Rightarrow> Inr ''event''
      | OtherValue t \<Rightarrow> Inl (unknownItemType (TimelineItem i)))"

definition CreatedAt :: "timelineItem \<Rightarrow> error + time" where
  "CreatedAt i =
     (case TimelineItem i of
        Comment c \<Rightarrow> Inr (comment_CreatedAt c)
      | Event e \<Rightarrow> Inr (event_CreatedAt e)
      | OtherValue t \<Rightarrow> Inl (unknownItemType (TimelineItem i)))"

definition ID :: "timelineItem \<Rightarrow> error + 64 word" where
  "ID i =
     (case TimelineItem i of
        Comment c \<Rightarrow> Inr (comment_ID c)
      | Event e \<Rightarrow> Inr (event_ID e)
      | OtherValue t \<Rightarrow> Inl (unknownItemType (TimelineItem i)))"

section \<open>xxx.go: the data of highlightDiff\<close>

text \<open>A byte slice is a \<open>string\<close> (a list of 8-bit characters); offsets are Go ints.\<close>

definition newline :: char where
  "newline = CHR 0x0A"

record annotation =
  Start :: int
  End :: int
  Left :: string
  Right :: string
  WantInner :: int

subsection \<open>bytes.Split at the newlines (line 130)\<close>

text \<open>
  The subslices of \<open>src\<close> between the separators: one more line than there are
  newline bytes, the last one being what follows the last newline (possibly empty).
  \<open>cur\<close> is the part of the current line already read.
\<close>

fun genSplit :: "string \<Rightarrow> string \<Rightarrow> string list" where
  "genSplit cur [] = [cur]"
| "genSplit cur (c # cs) =
     (if c = newline then cur # genSplit [] cs else genSplit (cur @ [c]) cs)"

definition bytes_Split :: "string \<Rightarrow> string list" where
  "bytes_Split src = genSplit [] src"

subsection \<open>The line-start table (lines 131 to 136)\<close>

text \<open>
  The loop stores the running offset for each line and advances it by the length of
  the line plus one; here as a recursion over the lines still to visit.
\<close>

fun lineStartsFrom :: "int \<Rightarrow> string list \<Rightarrow> int list" where
  "lineStartsFrom offset [] = []"
| "lineStartsFrom offset (l # ls) = offset # lineStartsFrom (offset + int (length l) + 1) ls"

definition lineStartsOf :: "string list \<Rightarrow> int list" where
  "lineStartsOf lines = lineStartsFrom 0 lines"

section \<open>xxx.go: the replace-block scan of highlightDiff (lines 138 to 192)\<close>

text \<open>
  Indexing a slice panics out of range, and so does re-slicing an empty line from 1.
\<close>

definition index :: "'a list \<Rightarrow> int \<Rightarrow> error + 'a" where
  "index xs i =
     (if 0 \<le> i \<and> i < int (length xs) then Inr (xs ! nat i)
      else Inl (Panic ''index out of range''))"

definition sliceFrom1 :: "string \<Rightarrow> error + string" where
  "sliceFrom1 l =
     (if 1 \<le> length l then Inr (drop 1 l)
      else Inl (Panic ''slice bounds out of range''))"

text \<open>
  The libraries the function calls are not part of the repository; they are parameters
  of the model: \<open>highlight_diff.Annotate\<close>, \<open>highlight_diff.HighlightedDiffFunc\<close>
  (which fills the two segment lists from the two contents and the two offsets), and
  the splicing of \<open>annotate.Annotate\<close> with \<open>template.HTMLEscape\<close>.
\<close>

record ext =
  hd_Annotate :: "string \<Rightarrow> annotation list \<times> error option"
  hd_HighlightedDiffFunc ::
    "string \<Rightarrow> string \<Rightarrow> int \<times> int \<Rightarrow> annotation list \<times> annotation list"
  splice :: "string \<Rightarrow> annotation list \<Rightarrow> string \<times> error option"

text \<open>
  The variables of the loop. \<open>calls\<close> is a log of the arguments of every call of
  \<open>HighlightedDiffFunc\<close>, in order: left content, right content, the two offsets.
\<close>

record scan =
  lastDel :: int
  lastIns :: int
  anns :: "annotation list"
  calls :: "(string \<times> string \<times> int \<times> int) list"

definition lineFirstChar :: "string \<Rightarrow> char" where
  "lineFirstChar l = (if length l > 0 then l ! 0 else CHR 0x00)"

definition gd :: "int \<Rightarrow> int \<Rightarrow> annotation" where
  "gd b e = \<lparr>Start = b, End = e, Left = ''<span class=\"gd input-block\">'',
             Right = ''</span>'', WantInner = 0\<rparr>"

definition gi :: "int \<Rightarrow> int \<Rightarrow> annotation" where
  "gi b e = \<lparr>Start = b, End = e, Left = ''<span class=\"gi input-block\">'',
             Right = ''</span>'', WantInner = 0\<rparr>"

text \<open>
  The two content loops (lines 174 to 181): for each line from \<open>line\<close> up to
  \<open>to\<close>, a NUL byte, the line without its first byte, and a newline are appended.
\<close>

function blockContent :: "string list \<Rightarrow> int \<Rightarrow> int \<Rightarrow> string \<Rightarrow> error + string" where
  "blockContent lines line to content =
     (if line < to then
        (case index lines line of
           Inl e \<Rightarrow> Inl e
         | Inr l \<Rightarrow>
             (case sliceFrom1 l of
                Inl e \<Rightarrow> Inl e
              | Inr body \<Rightarrow>
                  blockContent lines (line + 1) to (content @ [CHR 0x00] @ body @ [newline])))
      else Inr content)"
  by pat_completeness auto
termination
  by (relation "measure (\<lambda>(lines, line, to, content). nat (to - line))") auto

text \<open>The default case of the switch when a run is open (lines 155 to 188).\<close>

definition closeBlock ::
  "ext \<Rightarrow> string list \<Rightarrow> int list \<Rightarrow> int \<Rightarrow> char \<Rightarrow> scan \<Rightarrow> error + scan" where
  "closeBlock E lines lineStarts lineIndex c s =
     (let d = (if lastDel s = -1 then lastIns s else lastDel s);
          i = (if lastDel s = -1 then lastIns s
               else if lastIns s = -1 then lineIndex else lastIns s)
      in case index lineStarts d of
           Inl e \<Rightarrow> Inl e
         | Inr beginOffsetLeft \<Rightarrow>
        (case index lineStarts i of
           Inl e \<Rightarrow> Inl e
         | Inr endOffsetLeft \<Rightarrow>
        (case index lineStarts lineIndex of
           Inl e \<Rightarrow> Inl e
         | Inr endOffsetRight \<Rightarrow>
        (let beginOffsetRight = endOffsetLeft;
             s1 = s\<lparr>lastDel := d, lastIns := i,
                     anns := anns s @ [gd beginOffsetLeft endOffsetLeft,
                                       gi beginOffsetRight endOffsetRight]\<rparr>
         in if c \<noteq> CHR ''@'' then
              (case blockContent lines d i [] of
                 Inl e \<Rightarrow> Inl e
               | Inr leftContent \<Rightarrow>
              (case blockContent lines i lineIndex [] of
                 Inl e \<Rightarrow> Inl e
               | Inr rightContent \<Rightarrow>
                  (let sectionSegments =
                         hd_HighlightedDiffFunc E leftContent rightContent
                           (beginOffsetLeft, beginOffsetRight)
                   in Inr (s1\<lparr>anns := anns s1 @ fst sectionSegments @ snd sectionSegments,
                                calls := calls s1 @ [(leftContent, rightContent,
                                                      beginOffsetLeft, beginOffsetRight)]\<rparr>))))
            else Inr s1))))"

text \<open>One iteration of the loop: the switch on the first byte of the line.\<close>

definition step :: "ext \<Rightarrow> string list \<Rightarrow> int list \<Rightarrow> nat \<Rightarrow> scan \<Rightarrow> error + scan" where
  "step E lines lineStarts lineIndex s =
     (case index lines (int lineIndex) of
        Inl e \<Rightarrow> Inl e
      | Inr l \<Rightarrow>
          (let c = lineFirstChar l
           in if c = CHR ''+'' then
                Inr (if lastIns s = -1 then s\<lparr>lastIns := int lineIndex\<rparr> else s)
              else if c = CHR ''-'' then
                Inr (if lastDel s = -1 then s\<lparr>lastDel := int lineIndex\<rparr> else s)
              else
                (case (if lastDel s \<noteq> -1 \<or> lastIns s \<noteq> -1
                       then closeBlock E lines lineStarts (int lineIndex) c s else Inr s) of
                   Inl e \<Rightarrow> Inl e
                 | Inr s' \<Rightarrow> Inr (s'\<lparr>lastDel := -1, lastIns := -1\<rparr>))))"

text \<open>
  The loop, from \<open>lineIndex\<close> up to \<open>n\<close>; the program runs it from 0 up to
  \<open>len(lines)\<close>.
\<close>

function scanLines ::
  "ext \<Rightarrow> string list \<Rightarrow> int list \<Rightarrow> nat \<Rightarrow> nat \<Rightarrow> scan \<Rightarrow> error + scan" where
  "scanLines E lines lineStarts lineIndex n s =
     (if lineIndex < n then
        (case step E lines lineStarts lineIndex s of
           Inl e \<Rightarrow> Inl e
         | Inr s' \<Rightarrow> scanLines E lines lineStarts (lineIndex + 1) n s')
      else Inr s)"
  by pat_completeness auto
termination
  by (relation "measure (\<lambda>(E, lines, lineStarts, lineIndex, n, s). n - lineIndex)") auto

definition initScan :: "annotation list \<Rightarrow> scan" where
  "initScan as = \<lparr>lastDel = -1, lastIns = -1, anns = as, calls = []\<rparr>"

text \<open>Lines 130 to 192: the annotations collected for \<open>src\<close>, on top of \<open>as\<close>.\<close>

definition collect :: "ext \<Rightarrow> string \<Rightarrow> annotation list \<Rightarrow> error + scan" where
  "collect E src as =
     (let lines = bytes_Split src; lineStarts = lineStartsOf lines
      in scanLines E lines lineStarts 0 (length lines) (initScan as))"

section \<open>xxx.go: sorting and splicing in highlightDiff (lines 194 to 201)\<close>

text \<open>
  Modelled from the spec: the order of \<open>annotate.Annotations\<close> that \<open>sort.Sort\<close>
  uses; package \<open>annotate\<close> is not under src/. Section 4.4: by start offset
  ascending and, for annotations sharing a start offset, by descending span length.
\<close>

definition annLess :: "annotation \<Rightarrow> annotation \<Rightarrow> bool" where
  "annLess a b \<longleftrightarrow>
     Start a < Start b \<or> (Start a = Start b \<and> End b - Start b < End a - Start a)"

fun insertAnn :: "annotation \<Rightarrow> annotation list \<Rightarrow> annotation list" where
  "insertAnn a [] = [a]"
| "insertAnn a (b # bs) = (if annLess b a then b # insertAnn a bs else a # b # bs)"

fun sortAnns :: "annotation list \<Rightarrow> annotation list" where
  "sortAnns [] = []"
| "sortAnns (a # as) = insertAnn a (sortAnns as)"

text \<open>
  Modelled from the spec: the validation pass of \<open>annotate.Annotate\<close> (not under
  src/). Sections 3 and 4.4: two annotations whose ranges intersect must be nested, one
  range a subset of the other; a pair that crosses without nesting is a hard error.
\<close>

definition rangesIntersect :: "annotation \<Rightarrow> annotation \<Rightarrow> bool" where
  "rangesIntersect a b \<longleftrightarrow> max (Start a) (Start b) < min (End a) (End b)"

definition contains :: "annotation \<Rightarrow> annotation \<Rightarrow> bool" where
  "contains a b \<longleftrightarrow> Start a \<le> Start b \<and> End b \<le> End a"

definition partiallyOverlap :: "annotation \<Rightarrow> annotation \<Rightarrow> bool" where
  "partiallyOverlap a b \<longleftrightarrow> rangesIntersect a b \<and> \<not> contains a b \<and> \<not> contains b a"

definition hasPartialOverlap :: "annotation list \<Rightarrow> bool" where
  "hasPartialOverlap as = list_ex (\<lambda>a. list_ex (\<lambda>b. partiallyOverlap a b) as) as"

definition invariantError :: error where
  "invariantError = LibError ''annotations overlap without nesting''"

text \<open>
  Modelled from the spec: \<open>annotate.Annotate(src, anns, template.HTMLEscape)\<close>, which
  returns the bytes written and an error. The validation comes first; the splicer of
  section 4.5 is the parameter \<open>splice\<close>.
\<close>

definition annotate_Annotate :: "ext \<Rightarrow> string \<Rightarrow> annotation list \<Rightarrow> string \<times> error option" where
  "annotate_Annotate E src as =
     (if hasPartialOverlap as then (fst (splice E src as), Some invariantError)
      else splice E src as)"

text \<open>
  \<open>highlightDiff\<close> returns a byte slice (\<open>None\<close> is nil) and an error (\<open>None\<close> is
  nil); \<open>Inl\<close> is a panic.
\<close>

definition highlightDiff :: "ext \<Rightarrow> string \<Rightarrow> error + (string option \<times> error option)" where
  "highlightDiff E src =
     (case hd_Annotate E src of
        (as, err) \<Rightarrow>
          if err \<noteq> None then Inr (None, err)
          else
            (case collect E src as of
               Inl e \<Rightarrow> Inl e
             | Inr s \<Rightarrow>
                 (case annotate_Annotate E src (sortAnns (anns s)) of
                    (out, err) \<Rightarrow>
                      if err \<noteq> None then Inr (None, err) else Inr (Some out, None))))"


section \<open>Notions used in the statements\<close>

subsection \<open>Line markers\<close>

text \<open>
  The marker of a line, read off the switch of lines 144 to 153 and the test of line
  169: \<open>+\<close> and \<open>-\<close> have their own cases, \<open>@\<close> is the only other byte the code tells
  apart, and everything else, the empty line included (its first byte reads as 0), takes
  the default case. A line \<open>closes\<close> a run when it takes the default case.
\<close>

datatype marker = Context | Delete | Insert | Other

definition markerOf :: "string \<Rightarrow> marker" where
  "markerOf l =
     (let c = lineFirstChar l
      in if c = CHR ''+'' then Insert
         else if c = CHR ''-'' then Delete
         else if c = CHR ''@'' then Other
         else Context)"

definition closes :: "string \<Rightarrow> bool" where
  "closes l \<longleftrightarrow> markerOf l = Context \<or> markerOf l = Other"

subsection \<open>Lines and bytes\<close>

text \<open>
  \<open>joinLines\<close> puts the newline separators back; \<open>bytesOf\<close> is the number of
  bytes that a sequence of lines takes with their separators; \<open>linesBetween\<close> is the
  slice of the lines from index \<open>a\<close> up to index \<open>b\<close>.
\<close>

fun joinLines :: "string list \<Rightarrow> string" where
  "joinLines [] = []"
| "joinLines [l] = l"
| "joinLines (l # m # ls) = l @ newline # joinLines (m # ls)"

definition bytesOf :: "string list \<Rightarrow> int" where
  "bytesOf ls = (\<Sum>l\<leftarrow>ls. int (length l) + 1)"

definition linesBetween :: "string list \<Rightarrow> int \<Rightarrow> int \<Rightarrow> string list" where
  "linesBetween lines a b = take (nat (b - a)) (drop (nat a) lines)"

subsection \<open>Contents\<close>

text \<open>
  What one round of a content loop appends for a line, and the content of a sequence
  of lines.
\<close>

definition nulBody :: "string \<Rightarrow> string" where
  "nulBody l = CHR 0x00 # drop 1 l @ [newline]"

definition contentOf :: "string list \<Rightarrow> string" where
  "contentOf ls = concat (map nulBody ls)"

text \<open>
  The content as section 4.3 of the specification words it, to compare with the code's:
  for each line, its body (the line bytes with the leading marker stripped) followed by
  a newline.
\<close>

definition strippedLine :: "string \<Rightarrow> string" where
  "strippedLine l = drop 1 l @ [newline]"

definition specContent :: "string list \<Rightarrow> string" where
  "specContent ls = concat (map strippedLine ls)"

subsection \<open>The effect of one iteration\<close>

text \<open>
  The values that an iteration at line \<open>k\<close> computes from the state \<open>s\<close> when no index
  is out of range: the two cursors after the adjustment of lines 155 to 159, the two
  background annotations, the arguments of the call of \<open>HighlightedDiffFunc\<close> and the
  segments it returns, the annotations and calls the iteration appends, and the cursors
  it leaves.
\<close>

definition runOpen :: "scan \<Rightarrow> bool" where
  "runOpen s \<longleftrightarrow> lastDel s \<noteq> -1 \<or> lastIns s \<noteq> -1"

definition delStart :: "scan \<Rightarrow> int" where
  "delStart s = (if lastDel s = -1 then lastIns s else lastDel s)"

definition insStart :: "nat \<Rightarrow> scan \<Rightarrow> int" where
  "insStart k s =
     (if lastDel s = -1 then lastIns s else if lastIns s = -1 then int k else lastIns s)"

definition blockAnns :: "int list \<Rightarrow> nat \<Rightarrow> scan \<Rightarrow> annotation list" where
  "blockAnns ls k s =
     [gd (ls ! nat (delStart s)) (ls ! nat (insStart k s)),
      gi (ls ! nat (insStart k s)) (ls ! k)]"

definition blockCall :: "string list \<Rightarrow> int list \<Rightarrow> nat \<Rightarrow> scan \<Rightarrow> string \<times> string \<times> int \<times> int" where
  "blockCall lines ls k s =
     (contentOf (linesBetween lines (delStart s) (insStart k s)),
      contentOf (linesBetween lines (insStart k s) (int k)),
      ls ! nat (delStart s), ls ! nat (insStart k s))"

definition segsOf :: "ext \<Rightarrow> string \<times> string \<times> int \<times> int \<Rightarrow> annotation list" where
  "segsOf E call =
     (case call of (l, r, bl, br) \<Rightarrow>
        fst (hd_HighlightedDiffFunc E l r (bl, br)) @ snd (hd_HighlightedDiffFunc E l r (bl, br)))"

definition emitted :: "ext \<Rightarrow> string list \<Rightarrow> int list \<Rightarrow> nat \<Rightarrow> scan \<Rightarrow> annotation list" where
  "emitted E lines ls k s =
     (if closes (lines ! k) \<and> runOpen s then
        blockAnns ls k s @
        (if markerOf (lines ! k) = Other then [] else segsOf E (blockCall lines ls k s))
      else [])"

definition called :: "string list \<Rightarrow> int list \<Rightarrow> nat \<Rightarrow> scan \<Rightarrow> (string \<times> string \<times> int \<times> int) list" where
  "called lines ls k s =
     (if closes (lines ! k) \<and> runOpen s \<and> markerOf (lines ! k) \<noteq> Other
      then [blockCall lines ls k s] else [])"

definition nextDel :: "string list \<Rightarrow> nat \<Rightarrow> scan \<Rightarrow> int" where
  "nextDel lines k s =
     (if closes (lines ! k) then -1
      else if markerOf (lines ! k) = Delete \<and> lastDel s = -1 then int k else lastDel s)"

definition nextIns :: "string list \<Rightarrow> nat \<Rightarrow> scan \<Rightarrow> int" where
  "nextIns lines k s =
     (if closes (lines ! k) then -1
      else if markerOf (lines ! k) = Insert \<and> lastIns s = -1 then int k else lastIns s)"

subsection \<open>The invariant of the scan\<close>

text \<open>
  Before line \<open>k\<close>, the current run starts at the line \<open>p\<close> that follows the last
  closing line, and each cursor is the index of the first line of its marker in the
  run, or -1 when the run has none.
\<close>

definition firstOf :: "marker \<Rightarrow> string list \<Rightarrow> nat \<Rightarrow> nat \<Rightarrow> int \<Rightarrow> bool" where
  "firstOf m lines p k x \<longleftrightarrow>
     (x = -1 \<and> (\<forall>j. p \<le> j \<and> j < k \<longrightarrow> markerOf (lines ! j) \<noteq> m)) \<or>
     (int p \<le> x \<and> x < int k \<and> markerOf (lines ! nat x) = m \<and>
      (\<forall>j. p \<le> j \<and> int j < x \<longrightarrow> markerOf (lines ! j) \<noteq> m))"

definition runStart :: "string list \<Rightarrow> nat \<Rightarrow> nat \<Rightarrow> bool" where
  "runStart lines p k \<longleftrightarrow>
     p \<le> k \<and> (p = 0 \<or> closes (lines ! (p - 1))) \<and>
     (\<forall>j. p \<le> j \<and> j < k \<longrightarrow> \<not> closes (lines ! j))"

definition scanInv :: "string list \<Rightarrow> nat \<Rightarrow> scan \<Rightarrow> bool" where
  "scanInv lines k s \<longleftrightarrow>
     (\<exists>p. runStart lines p k \<and> firstOf Delete lines p k (lastDel s) \<and>
          firstOf Insert lines p k (lastIns s))"

subsection \<open>Spans and lines\<close>

text \<open>
  \<open>coversLines\<close>: the lines that start inside the span of an annotation are exactly
  the lines \<open>p\<close> up to \<open>q\<close>. \<open>overlapsLine\<close>: the span shares a byte with line \<open>k\<close>.
  \<open>inRun\<close>: the span lies between the start of a line \<open>m\<close> and the start of a line
  \<open>c\<close> with only Delete and Insert lines in between.
\<close>

definition coversLines :: "int list \<Rightarrow> annotation \<Rightarrow> nat \<Rightarrow> nat \<Rightarrow> bool" where
  "coversLines ls a p q \<longleftrightarrow>
     (\<forall>k < length ls. (Start a \<le> ls ! k \<and> ls ! k < End a) \<longleftrightarrow> (p \<le> k \<and> k < q))"




subsection \<open>Library functions for the concrete evaluations\<close>

text \<open>
  \<open>plainExt\<close>: no annotation from \<open>highlight_diff.Annotate\<close>, no segment from
  \<open>HighlightedDiffFunc\<close>, and a splicer that returns the text. \<open>spanExt\<close>: one
  segment per side, over the whole content. \<open>crossingExt\<close>: one annotation from
  \<open>highlight_diff.Annotate\<close>, over the bytes 1 to 4.
\<close>

definition plainExt :: ext where
  "plainExt = \<lparr>hd_Annotate = (\<lambda>src. ([], None)),
         hd_HighlightedDiffFunc = (\<lambda>l r off. ([], [])),
         splice = (\<lambda>src as. (src, None))\<rparr>"



definition crossingExt :: ext where
  "crossingExt = plainExt\<lparr>hd_Annotate :=
     (\<lambda>src. ([\<lparr>Start = 1, End = 4, Left = ''<b>'', Right = ''</b>'', WantInner = 0\<rparr>], None))\<rparr>"




section \<open>Lines and offsets\<close>

lemma bytesOf_simps [simp]:
  "bytesOf [] = 0" "bytesOf (l # ls) = int (length l) + 1 + bytesOf ls"
  "bytesOf (xs @ ys) = bytesOf xs + bytesOf ys"
  by (simp_all add: bytesOf_def)

lemma bytesOf_nonneg: "0 \<le> bytesOf ls"
  by (induction ls) auto

lemma genSplit_nonempty [simp]: "genSplit cur s \<noteq> []"
  by (induction s arbitrary: cur) auto

lemma joinLines_Cons: "ls \<noteq> [] \<Longrightarrow> joinLines (l # ls) = l @ newline # joinLines ls"
  by (cases ls) auto

lemma joinLines_genSplit: "joinLines (genSplit cur s) = cur @ s"
  by (induction s arbitrary: cur) (auto simp: joinLines_Cons)

lemma genSplit_snoc_newline: "genSplit cur (s @ [newline]) = genSplit cur s @ [[]]"
  by (induction s arbitrary: cur) auto

lemma length_lineStartsFrom [simp]: "length (lineStartsFrom off ls) = length ls"
  by (induction ls arbitrary: off) auto

lemma lineStartsFrom_nth:
  "k < length ls \<Longrightarrow> lineStartsFrom off ls ! k = off + bytesOf (take k ls)"
proof (induction ls arbitrary: off k)
  case Nil
  then show ?case by simp
next
  case (Cons l ls)
  then show ?case by (cases k) auto
qed

lemma length_lineStartsOf [simp]: "length (lineStartsOf ls) = length ls"
  by (simp add: lineStartsOf_def)

lemma lineStartsOf_nth: "k < length ls \<Longrightarrow> lineStartsOf ls ! k = bytesOf (take k ls)"
  by (simp add: lineStartsOf_def lineStartsFrom_nth)

lemma lineStartsOf_Suc:
  assumes "Suc k < length ls"
  shows "lineStartsOf ls ! Suc k = lineStartsOf ls ! k + int (length (ls ! k)) + 1"
proof -
  have "take (Suc k) ls = take k ls @ [ls ! k]"
    using assms by (simp add: take_Suc_conv_app_nth)
  then show ?thesis using assms by (simp add: lineStartsOf_nth)
qed

lemma lineStartsOf_mono:
  assumes "j \<le> k" "k < length ls"
  shows "lineStartsOf ls ! j \<le> lineStartsOf ls ! k"
proof -
  have "take k ls = take j ls @ take (k - j) (drop j ls)"
    using assms by (metis le_add_diff_inverse take_add)
  then have "bytesOf (take k ls) = bytesOf (take j ls) + bytesOf (take (k - j) (drop j ls))"
    by simp
  then show ?thesis using assms bytesOf_nonneg[of "take (k - j) (drop j ls)"]
    by (simp add: lineStartsOf_nth)
qed

lemma length_joinLines: "ls \<noteq> [] \<Longrightarrow> int (length (joinLines ls)) = bytesOf ls - 1"
  by (induction ls rule: joinLines.induct) auto

lemma drop_joinLines:
  "k < length ls \<Longrightarrow>
   drop (nat (bytesOf (take k ls))) (joinLines ls) =
     ls ! k @ (if Suc k < length ls then newline # joinLines (drop (Suc k) ls) else [])"
proof (induction k arbitrary: ls)
  case 0
  then show ?case by (cases ls rule: joinLines.cases) auto
next
  case (Suc k)
  then obtain l m ms where ls: "ls = l # m # ms"
    by (cases ls rule: joinLines.cases) auto
  have "nat (bytesOf (take (Suc k) ls)) = length l + 1 + nat (bytesOf (take k (m # ms)))"
    using bytesOf_nonneg[of "take k (m # ms)"] by (simp add: ls nat_add_distrib)
  then have "drop (nat (bytesOf (take (Suc k) ls))) (joinLines ls) =
             drop (nat (bytesOf (take k (m # ms)))) (joinLines (m # ms))"
    by (simp add: ls)
  also have "\<dots> = (m # ms) ! k @
      (if Suc k < length (m # ms) then newline # joinLines (drop (Suc k) (m # ms)) else [])"
    using Suc.prems by (intro Suc.IH) (simp add: ls)
  finally show ?case by (simp add: ls)
qed


section \<open>Markers, indexing and contents\<close>

lemma markerOf_simps:
  "markerOf l = Insert \<longleftrightarrow> lineFirstChar l = CHR ''+''"
  "markerOf l = Delete \<longleftrightarrow> lineFirstChar l = CHR ''-''"
  "markerOf l = Other \<longleftrightarrow> lineFirstChar l = CHR ''@''"
  by (auto simp: markerOf_def Let_def)

lemma closes_iff: "closes l \<longleftrightarrow> lineFirstChar l \<noteq> CHR ''+'' \<and> lineFirstChar l \<noteq> CHR ''-''"
  by (auto simp: closes_def markerOf_def Let_def)

lemma not_closes_nonempty: "\<not> closes l \<Longrightarrow> l \<noteq> []"
  by (auto simp: closes_iff lineFirstChar_def)

lemma index_in_range: "0 \<le> i \<Longrightarrow> i < int (length xs) \<Longrightarrow> index xs i = Inr (xs ! nat i)"
  by (simp add: index_def)

lemma index_nat: "k < length xs \<Longrightarrow> index xs (int k) = Inr (xs ! k)"
  by (simp add: index_def)

declare blockContent.simps [simp del]
declare scanLines.simps [simp del]

lemma linesBetween_empty: "b \<le> a \<Longrightarrow> linesBetween lines a b = []"
  by (simp add: linesBetween_def)

lemma linesBetween_step:
  assumes "0 \<le> a" "a < b" "b \<le> int (length lines)"
  shows "linesBetween lines a b = lines ! nat a # linesBetween lines (a + 1) b"
proof -
  have 1: "nat a < length lines" using assms by linarith
  have 2: "nat (b - a) = Suc (nat (b - (a + 1)))" using assms by linarith
  have 3: "nat (a + 1) = Suc (nat a)" using assms by linarith
  show ?thesis
    unfolding linesBetween_def 2 3
    by (simp add: Cons_nth_drop_Suc[OF 1, symmetric])
qed

lemma blockContent_ok:
  assumes "0 \<le> a" "b \<le> int (length lines)"
    and "\<forall>j. a \<le> int j \<and> int j < b \<longrightarrow> lines ! j \<noteq> []"
  shows "blockContent lines a b acc = Inr (acc @ contentOf (linesBetween lines a b))"
  using assms
proof (induction lines a b acc rule: blockContent.induct)
  case (1 lines line to content)
  show ?case
  proof (cases "line < to")
    case False
    then show ?thesis
      by (simp add: blockContent.simps[of lines line to] linesBetween_empty contentOf_def)
  next
    case True
    have r: "0 \<le> line" "line < int (length lines)" using True "1.prems" by auto
    have ne: "lines ! nat line \<noteq> []"
      using "1.prems"(3) True r by (metis int_nat_eq order_refl)
    have ix: "index lines line = Inr (lines ! nat line)" by (rule index_in_range[OF r])
    have sl: "sliceFrom1 (lines ! nat line) = Inr (drop 1 (lines ! nat line))"
      using ne by (cases "lines ! nat line") (auto simp: sliceFrom1_def)
    have ih: "blockContent lines (line + 1) to (content @ [CHR 0x00] @ drop 1 (lines ! nat line) @ [newline])
        = Inr ((content @ [CHR 0x00] @ drop 1 (lines ! nat line) @ [newline]) @
               contentOf (linesBetween lines (line + 1) to))"
      using "1.prems" r by (intro "1.IH"[OF True ix sl]) auto
    show ?thesis
      using True ih
      by (simp add: blockContent.simps[of lines line to] ix sl
          linesBetween_step[OF r(1) True "1.prems"(2)] contentOf_def nulBody_def)
  qed
qed

lemma length_nulBody: "l \<noteq> [] \<Longrightarrow> int (length (nulBody l)) = int (length l) + 1"
  by (cases l) (simp_all add: nulBody_def)

lemma length_contentOf:
  "\<forall>l \<in> set ls. l \<noteq> [] \<Longrightarrow> int (length (contentOf ls)) = bytesOf ls"
  by (induction ls) (simp_all add: contentOf_def length_nulBody)

section \<open>Unfolding the loop\<close>

lemma scanLines_stop: "n \<le> k \<Longrightarrow> scanLines E lines ls k n s = Inr s"
  by (simp add: scanLines.simps)

lemma scanLines_unfold:
  "k < n \<Longrightarrow> scanLines E lines ls k n s =
     (case step E lines ls k s of Inl e \<Rightarrow> Inl e | Inr s' \<Rightarrow> scanLines E lines ls (Suc k) n s')"
  by (simp add: scanLines.simps[of E lines ls k n s] split: sum.splits)

lemma scanLines_split:
  "k \<le> j \<Longrightarrow> j \<le> n \<Longrightarrow>
   scanLines E lines ls k n s =
     (case scanLines E lines ls k j s of Inl e \<Rightarrow> Inl e | Inr s' \<Rightarrow> scanLines E lines ls j n s')"
proof (induction E lines ls k j s rule: scanLines.induct)
  case (1 E lines ls k j s)
  show ?case
  proof (cases "k < j")
    case False
    then show ?thesis using "1.prems" by (simp add: scanLines_stop)
  next
    case True
    then have kn: "k < n" using "1.prems" by simp
    show ?thesis
    proof (cases "step E lines ls k s")
      case (Inl e)
      then show ?thesis by (simp add: scanLines_unfold[OF True] scanLines_unfold[OF kn])
    next
      case (Inr s')
      have "scanLines E lines ls (k + 1) n s' =
            (case scanLines E lines ls (k + 1) j s' of Inl e \<Rightarrow> Inl e
             | Inr t \<Rightarrow> scanLines E lines ls j n t)"
        using True "1.prems" by (intro "1.IH"[OF True Inr]) auto
      then show ?thesis
        by (simp add: scanLines_unfold[OF True] scanLines_unfold[OF kn] Inr)
    qed
  qed
qed

lemma scanLines_one: "scanLines E lines ls k (Suc k) s = step E lines ls k s"
  by (simp add: scanLines_unfold scanLines_stop split: sum.splits)

lemma scanLines_Suc:
  "k \<le> n \<Longrightarrow> scanLines E lines ls k (Suc n) s =
     (case scanLines E lines ls k n s of Inl e \<Rightarrow> Inl e | Inr s' \<Rightarrow> step E lines ls n s')"
  using scanLines_split[of k n "Suc n" E lines ls s]
  by (simp add: scanLines_one split: sum.splits)

section \<open>One iteration under the invariant\<close>

text \<open>
  Under the invariant no index is out of range and no line of the open run is empty, so
  an iteration never panics; it appends \<open>emitted\<close> and \<open>called\<close>, moves the cursors
  to \<open>nextDel\<close> and \<open>nextIns\<close>, and keeps the invariant.
\<close>

lemma closeBlock_ok:
  assumes k: "k < length lines" and len: "length ls = length lines"
    and d: "0 \<le> delStart s" "delStart s \<le> int k"
    and i: "0 \<le> insStart k s" "insStart k s \<le> int k"
    and ne: "\<forall>j. (delStart s \<le> int j \<or> insStart k s \<le> int j) \<and> j < k \<longrightarrow> lines ! j \<noteq> []"
  shows "closeBlock E lines ls (int k) c s =
     Inr (s\<lparr>lastDel := delStart s, lastIns := insStart k s,
            anns := anns s @ blockAnns ls k s @
                    (if c \<noteq> CHR ''@'' then segsOf E (blockCall lines ls k s) else []),
            calls := calls s @ (if c \<noteq> CHR ''@'' then [blockCall lines ls k s] else [])\<rparr>)"
proof -
  have ix: "index ls (delStart s) = Inr (ls ! nat (delStart s))"
    "index ls (insStart k s) = Inr (ls ! nat (insStart k s))"
    "index ls (int k) = Inr (ls ! k)"
    using k len d i by (simp_all add: index_def)
  have cl: "blockContent lines (delStart s) (insStart k s) [] =
      Inr ([] @ contentOf (linesBetween lines (delStart s) (insStart k s)))"
    using k d i ne by (intro blockContent_ok) auto
  have cr: "blockContent lines (insStart k s) (int k) [] =
      Inr ([] @ contentOf (linesBetween lines (insStart k s) (int k)))"
    using k d i ne by (intro blockContent_ok) auto
  have unf: "(if lastDel s = -1 then lastIns s else lastDel s) = delStart s"
    "(if lastDel s = -1 then lastIns s else if lastIns s = -1 then int k else lastIns s)
       = insStart k s"
    by (simp_all add: delStart_def insStart_def)
  show ?thesis
    unfolding closeBlock_def unf Let_def
    using cl cr
    by (simp add: ix blockAnns_def segsOf_def blockCall_def)
qed

lemma firstOf_range: "firstOf m lines p k x \<Longrightarrow> x = -1 \<or> (int p \<le> x \<and> x < int k)"
  by (auto simp: firstOf_def)

lemma scanInv_bounds:
  assumes "scanInv lines k s" and "runOpen s"
  shows "0 \<le> delStart s \<and> delStart s \<le> int k \<and> 0 \<le> insStart k s \<and> insStart k s \<le> int k \<and>
         (\<forall>j. (delStart s \<le> int j \<or> insStart k s \<le> int j) \<and> j < k \<longrightarrow> lines ! j \<noteq> [])"
proof -
  obtain p where p: "runStart lines p k" and fd: "firstOf Delete lines p k (lastDel s)"
    and fi: "firstOf Insert lines p k (lastIns s)"
    using assms(1) by (auto simp: scanInv_def)
  have rd: "lastDel s = -1 \<or> (int p \<le> lastDel s \<and> lastDel s < int k)"
    by (rule firstOf_range[OF fd])
  have ri: "lastIns s = -1 \<or> (int p \<le> lastIns s \<and> lastIns s < int k)"
    by (rule firstOf_range[OF fi])
  have d: "int p \<le> delStart s \<and> delStart s \<le> int k"
    using rd ri assms(2) by (auto simp: delStart_def runOpen_def)
  have i: "int p \<le> insStart k s \<and> insStart k s \<le> int k"
    using rd ri assms(2) p by (auto simp: insStart_def runOpen_def runStart_def)
  have "lines ! j \<noteq> []" if "(delStart s \<le> int j \<or> insStart k s \<le> int j) \<and> j < k" for j
  proof -
    have "p \<le> j" using that d i by auto
    then have "\<not> closes (lines ! j)" using p that by (auto simp: runStart_def)
    then show ?thesis by (rule not_closes_nonempty)
  qed
  then show ?thesis using d i by auto
qed

lemma marker_cases:
  "markerOf l = Insert \<or> markerOf l = Delete \<or> closes l"
  by (auto simp: closes_def markerOf_def Let_def)

lemma step_ok:
  assumes inv: "scanInv lines k s" and k: "k < length lines" and len: "length ls = length lines"
  shows "step E lines ls k s =
     Inr (s\<lparr>lastDel := nextDel lines k s, lastIns := nextIns lines k s,
            anns := anns s @ emitted E lines ls k s,
            calls := calls s @ called lines ls k s\<rparr>)"
proof -
  have ix: "index lines (int k) = Inr (lines ! k)" by (rule index_nat[OF k])
  consider (ins) "markerOf (lines ! k) = Insert" | (del) "markerOf (lines ! k) = Delete"
    | (cl) "closes (lines ! k)"
    using marker_cases by blast
  then show ?thesis
  proof cases
    case ins
    then have c: "lineFirstChar (lines ! k) = CHR ''+''" "\<not> closes (lines ! k)"
      by (simp_all add: markerOf_simps closes_iff)
    show ?thesis
      using ins by (simp add: step_def ix c nextDel_def nextIns_def emitted_def called_def)
  next
    case del
    then have c: "lineFirstChar (lines ! k) = CHR ''-''" "\<not> closes (lines ! k)"
      by (simp_all add: markerOf_simps closes_iff)
    show ?thesis
      using del by (simp add: step_def ix c nextDel_def nextIns_def emitted_def called_def)
  next
    case cl
    then have c: "lineFirstChar (lines ! k) \<noteq> CHR ''+''" "lineFirstChar (lines ! k) \<noteq> CHR ''-''"
      by (simp_all add: closes_iff)
    show ?thesis
    proof (cases "runOpen s")
      case False
      then have "lastDel s = -1" "lastIns s = -1" by (simp_all add: runOpen_def)
      then show ?thesis
        using cl False
        by (simp add: step_def ix c nextDel_def nextIns_def emitted_def called_def)
    next
      case True
      note b = scanInv_bounds[OF inv True]
      have cb: "closeBlock E lines ls (int k) (lineFirstChar (lines ! k)) s =
         Inr (s\<lparr>lastDel := delStart s, lastIns := insStart k s,
            anns := anns s @ blockAnns ls k s @
                    (if lineFirstChar (lines ! k) \<noteq> CHR ''@''
                     then segsOf E (blockCall lines ls k s) else []),
            calls := calls s @ (if lineFirstChar (lines ! k) \<noteq> CHR ''@''
                     then [blockCall lines ls k s] else [])\<rparr>)"
        using b by (intro closeBlock_ok[OF k len]) auto
      have op: "lastDel s \<noteq> -1 \<or> lastIns s \<noteq> -1" using True by (simp add: runOpen_def)
      show ?thesis
        using cl True op
        by (simp add: step_def ix c cb Let_def nextDel_def nextIns_def emitted_def called_def
            markerOf_simps)
    qed
  qed
qed

lemma step_inv:
  assumes inv: "scanInv lines k s" and k: "k < length lines"
    and nd: "lastDel s' = nextDel lines k s" and ni: "lastIns s' = nextIns lines k s"
  shows "scanInv lines (Suc k) s'"
proof (cases "closes (lines ! k)")
  case True
  have "runStart lines (Suc k) (Suc k)" using True by (auto simp: runStart_def)
  moreover have "firstOf Delete lines (Suc k) (Suc k) (lastDel s')"
    using True by (auto simp: nd nextDel_def firstOf_def)
  moreover have "firstOf Insert lines (Suc k) (Suc k) (lastIns s')"
    using True by (auto simp: ni nextIns_def firstOf_def)
  ultimately show ?thesis unfolding scanInv_def by blast
next
  case False
  obtain p where p: "runStart lines p k" and fd: "firstOf Delete lines p k (lastDel s)"
    and fi: "firstOf Insert lines p k (lastIns s)"
    using inv by (auto simp: scanInv_def)
  have rs: "runStart lines p (Suc k)"
    using p False by (auto simp: runStart_def less_Suc_eq)
  have d: "firstOf Delete lines p (Suc k) (lastDel s')"
    using fd False p unfolding nd nextDel_def firstOf_def runStart_def
    by (auto simp: less_Suc_eq)
  have i: "firstOf Insert lines p (Suc k) (lastIns s')"
    using fi False p unfolding ni nextIns_def firstOf_def runStart_def
    by (auto simp: less_Suc_eq)
  show ?thesis unfolding scanInv_def using rs d i by blast
qed

lemma scan_ok:
  assumes inv: "scanInv lines k s" and len: "length ls = length lines"
    and kn: "k \<le> n" and n: "n \<le> length lines"
  shows "\<exists>s'. scanLines E lines ls k n s = Inr s' \<and> scanInv lines n s' \<and>
              (\<exists>xs. anns s' = anns s @ xs) \<and> (\<exists>ys. calls s' = calls s @ ys)"
  using kn n
proof (induction n rule: dec_induct)
  case base
  show ?case using inv by (simp add: scanLines_stop)
next
  case (step m)
  then obtain s1 xs ys where s1: "scanLines E lines ls k m s = Inr s1" "scanInv lines m s1"
    "anns s1 = anns s @ xs" "calls s1 = calls s @ ys"
    by auto
  have m: "m < length lines" using step.prems by simp
  let ?s2 = "s1\<lparr>lastDel := nextDel lines m s1, lastIns := nextIns lines m s1,
            anns := anns s1 @ emitted E lines ls m s1,
            calls := calls s1 @ called lines ls m s1\<rparr>"
  have st: "step E lines ls m s1 = Inr ?s2" by (rule step_ok[OF s1(2) m len])
  have "scanLines E lines ls k (Suc m) s = Inr ?s2"
    using step.hyps(1) by (simp add: scanLines_Suc s1(1) st)
  moreover have "scanInv lines (Suc m) ?s2"
    by (rule step_inv[OF s1(2) m]) simp_all
  moreover have "anns ?s2 = anns s @ (xs @ emitted E lines ls m s1)" by (simp add: s1(3))
  moreover have "calls ?s2 = calls s @ (ys @ called lines ls m s1)" by (simp add: s1(4))
  ultimately show ?case by blast
qed

section \<open>Blocks\<close>

lemma scanInv_init: "scanInv lines 0 (initScan as)"
  by (simp add: scanInv_def initScan_def runStart_def firstOf_def)



lemma runStart_unique:
  assumes "runStart lines p k" and "runStart lines p' k"
  shows "p = p'"
proof (rule ccontr)
  assume ne: "p \<noteq> p'"
  have aux: False if a: "runStart lines a k" and b: "runStart lines b k" and ab: "a < b" for a b
  proof -
    have "closes (lines ! (b - 1))" using b ab by (auto simp: runStart_def)
    moreover have "a \<le> b - 1 \<and> b - 1 < k" using b ab by (auto simp: runStart_def)
    ultimately show False using a by (auto simp: runStart_def)
  qed
  from ne consider "p < p'" | "p' < p" by linarith
  then show False using aux assms by cases blast+
qed

lemma block_general:
  assumes len: "length ls = length lines" and rs: "runStart lines p c" and c: "c < length lines"
  shows "\<exists>s1 s2 s xs ys.
     scanLines E lines ls 0 c (initScan as) = Inr s1 \<and>
     firstOf Delete lines p c (lastDel s1) \<and> firstOf Insert lines p c (lastIns s1) \<and>
     scanLines E lines ls 0 (Suc c) (initScan as) = Inr s2 \<and>
     lastDel s2 = nextDel lines c s1 \<and> lastIns s2 = nextIns lines c s1 \<and>
     anns s2 = anns s1 @ emitted E lines ls c s1 \<and>
     calls s2 = calls s1 @ called lines ls c s1 \<and>
     scanLines E lines ls 0 (length lines) (initScan as) = Inr s \<and>
     anns s = anns s2 @ xs \<and> calls s = calls s2 @ ys"
proof -
  obtain s1 where s1: "scanLines E lines ls 0 c (initScan as) = Inr s1" "scanInv lines c s1"
    using scan_ok[OF scanInv_init len, where n = c and E = E and as1 = as] c by auto
  obtain p' where p': "runStart lines p' c" "firstOf Delete lines p' c (lastDel s1)"
    "firstOf Insert lines p' c (lastIns s1)"
    using s1(2) by (auto simp: scanInv_def)
  have pp: "p' = p" by (rule runStart_unique[OF p'(1) rs])
  let ?s2 = "s1\<lparr>lastDel := nextDel lines c s1, lastIns := nextIns lines c s1,
            anns := anns s1 @ emitted E lines ls c s1,
            calls := calls s1 @ called lines ls c s1\<rparr>"
  have st: "step E lines ls c s1 = Inr ?s2" by (rule step_ok[OF s1(2) c len])
  have s2: "scanLines E lines ls 0 (Suc c) (initScan as) = Inr ?s2"
    by (simp add: scanLines_Suc s1(1) st)
  have inv2: "scanInv lines (Suc c) ?s2" by (rule step_inv[OF s1(2) c]) simp_all
  obtain s xs ys where s: "scanLines E lines ls (Suc c) (length lines) ?s2 = Inr s"
    "anns s = anns ?s2 @ xs" "calls s = calls ?s2 @ ys"
    using scan_ok[OF inv2 len, where n = "length lines" and E = E] c by auto
  have fin: "scanLines E lines ls 0 (length lines) (initScan as) = Inr s"
    using scanLines_split[of 0 "Suc c" "length lines" E lines ls "initScan as"] c
    by (simp add: s2 s(1))
  show ?thesis
    using s1(1) p'(2,3) s2 fin s(2,3) unfolding pp
    by (intro exI[of _ s1] exI[of _ ?s2] exI[of _ s] exI[of _ xs] exI[of _ ys]) simp
qed

lemma firstOf_nat:
  assumes "firstOf m lines p k x" and "x \<noteq> -1"
  obtains j where "x = int j" "p \<le> j" "j < k" "markerOf (lines ! j) = m"
    "\<forall>i. p \<le> i \<and> i < j \<longrightarrow> markerOf (lines ! i) \<noteq> m"
proof -
  from assms have a: "int p \<le> x" "x < int k" "markerOf (lines ! nat x) = m"
    "\<forall>j. p \<le> j \<and> int j < x \<longrightarrow> markerOf (lines ! j) \<noteq> m"
    by (auto simp: firstOf_def)
  have "x = int (nat x)" using a(1) by simp
  moreover have "p \<le> nat x" "nat x < k" using a(1,2) by linarith+
  moreover have "\<forall>i. p \<le> i \<and> i < nat x \<longrightarrow> markerOf (lines ! i) \<noteq> m"
    using a(4) by (metis zless_nat_eq_int_zless)
  ultimately show ?thesis using that a(3) by blast
qed

lemma firstOf_none:
  "firstOf m lines p k (-1) \<Longrightarrow> p \<le> j \<Longrightarrow> j < k \<Longrightarrow> markerOf (lines ! j) \<noteq> m"
  by (auto simp: firstOf_def)

lemma firstOf_deletes_then_inserts:
  assumes pq: "p \<le> q" and qc: "q \<le> c"
    and dl: "\<forall>j. p \<le> j \<and> j < q \<longrightarrow> markerOf (lines ! j) = Delete"
    and il: "\<forall>j. q \<le> j \<and> j < c \<longrightarrow> markerOf (lines ! j) = Insert"
    and fd: "firstOf Delete lines p c x" and fi: "firstOf Insert lines p c y"
  shows "x = (if p < q then int p else -1) \<and> y = (if q < c then int q else -1)"
proof -
  have x: "x = (if p < q then int p else -1)"
  proof (cases "x = -1")
    case True
    have "\<not> p < q"
    proof
      assume "p < q"
      then have "markerOf (lines ! p) = Delete" using dl by simp
      moreover have "markerOf (lines ! p) \<noteq> Delete"
        using firstOf_none[of Delete lines p c p] fd True \<open>p < q\<close> qc by simp
      ultimately show False by simp
    qed
    then show ?thesis using True by simp
  next
    case False
    obtain j where j: "x = int j" "p \<le> j" "j < c" "markerOf (lines ! j) = Delete"
      "\<forall>i. p \<le> i \<and> i < j \<longrightarrow> markerOf (lines ! i) \<noteq> Delete"
      using firstOf_nat[OF fd False] by blast
    have jq: "j < q"
    proof (rule ccontr)
      assume "\<not> j < q"
      then have "markerOf (lines ! j) = Insert" using il j(3) by simp
      then show False using j(4) by simp
    qed
    have "\<not> p < j"
    proof
      assume "p < j"
      then have "markerOf (lines ! p) \<noteq> Delete" using j(5) by simp
      moreover have "markerOf (lines ! p) = Delete" using dl \<open>p < j\<close> jq by simp
      ultimately show False by simp
    qed
    then show ?thesis using j(1,2) jq by simp
  qed
  have y: "y = (if q < c then int q else -1)"
  proof (cases "y = -1")
    case True
    have "\<not> q < c"
    proof
      assume "q < c"
      then have "markerOf (lines ! q) = Insert" using il by simp
      moreover have "markerOf (lines ! q) \<noteq> Insert"
        using firstOf_none[of Insert lines p c q] fi True \<open>q < c\<close> pq by simp
      ultimately show False by simp
    qed
    then show ?thesis using True by simp
  next
    case False
    obtain j where j: "y = int j" "p \<le> j" "j < c" "markerOf (lines ! j) = Insert"
      "\<forall>i. p \<le> i \<and> i < j \<longrightarrow> markerOf (lines ! i) \<noteq> Insert"
      using firstOf_nat[OF fi False] by blast
    have qj: "q \<le> j"
    proof (rule ccontr)
      assume "\<not> q \<le> j"
      then have "markerOf (lines ! j) = Delete" using dl j(2) by simp
      then show False using j(4) by simp
    qed
    have "\<not> q < j"
    proof
      assume "q < j"
      then have "markerOf (lines ! q) \<noteq> Insert" using j(5) pq by simp
      moreover have "markerOf (lines ! q) = Insert" using il \<open>q < j\<close> j(3) by simp
      ultimately show False by simp
    qed
    then show ?thesis using j(1,3) qj by simp
  qed
  show ?thesis using x y by simp
qed

lemma starts_deletes_then_inserts:
  assumes "p \<le> q" "q \<le> c" "p < c"
    and "lastDel s = (if p < q then int p else -1)"
    and "lastIns s = (if q < c then int q else -1)"
  shows "runOpen s \<and> delStart s = int p \<and> insStart c s = int q"
  using assms by (auto simp: runOpen_def delStart_def insStart_def)

lemma linesBetween_nat:
  "p \<le> q \<Longrightarrow> linesBetween lines (int p) (int q) = take (q - p) (drop p lines)"
  by (simp add: linesBetween_def nat_diff_distrib' of_nat_diff[symmetric] del: of_nat_diff)

lemma lineStartsOf_between:
  assumes "p \<le> q" "q < length lines"
  shows "lineStartsOf lines ! q = lineStartsOf lines ! p + bytesOf (linesBetween lines (int p) (int q))"
proof -
  have "take q lines = take p lines @ take (q - p) (drop p lines)"
    using assms by (metis le_add_diff_inverse take_add)
  then show ?thesis using assms by (simp add: lineStartsOf_nth linesBetween_nat)
qed


lemma lineStartsOf_strict:
  assumes "j < k" "k < length lines"
  shows "lineStartsOf lines ! j < lineStartsOf lines ! k"
proof -
  have "lineStartsOf lines ! Suc j = lineStartsOf lines ! j + int (length (lines ! j)) + 1"
    using assms by (intro lineStartsOf_Suc) simp
  moreover have "lineStartsOf lines ! Suc j \<le> lineStartsOf lines ! k"
    using assms by (intro lineStartsOf_mono) simp_all
  ultimately show ?thesis by simp
qed

lemma lineStartsOf_le_iff:
  assumes "j < length lines" "k < length lines"
  shows "lineStartsOf lines ! j \<le> lineStartsOf lines ! k \<longleftrightarrow> j \<le> k"
  using lineStartsOf_strict[of k j lines] lineStartsOf_mono[of j k lines] assms
  by (cases "j \<le> k") auto

lemma lineStartsOf_less_iff:
  assumes "j < length lines" "k < length lines"
  shows "lineStartsOf lines ! j < lineStartsOf lines ! k \<longleftrightarrow> j < k"
  using lineStartsOf_strict[of j k lines] lineStartsOf_mono[of k j lines] assms
  by (cases "j < k") auto

lemma coversLines_starts:
  assumes "p \<le> q" "q < length lines"
  shows "coversLines (lineStartsOf lines) (gd (lineStartsOf lines ! p) (lineStartsOf lines ! q)) p q"
    and "coversLines (lineStartsOf lines) (gi (lineStartsOf lines ! p) (lineStartsOf lines ! q)) p q"
  using assms
  by (simp_all add: coversLines_def gd_def gi_def lineStartsOf_le_iff lineStartsOf_less_iff)

lemma block_deletes_then_inserts:
  assumes len: "length ls = length lines"
    and pq: "p \<le> q" and qc: "q \<le> c" and pc: "p < c" and c: "c < length lines"
    and bd: "p = 0 \<or> closes (lines ! (p - 1))"
    and dl: "\<forall>j. p \<le> j \<and> j < q \<longrightarrow> markerOf (lines ! j) = Delete"
    and il: "\<forall>j. q \<le> j \<and> j < c \<longrightarrow> markerOf (lines ! j) = Insert"
    and cl: "closes (lines ! c)"
    and call: "call = (contentOf (linesBetween lines (int p) (int q)),
                      contentOf (linesBetween lines (int q) (int c)), ls ! p, ls ! q)"
  obtains s1 s2 s xs ys where
     "scanLines E lines ls 0 c (initScan as) = Inr s1"
     "lastDel s1 = (if p < q then int p else -1)"
     "lastIns s1 = (if q < c then int q else -1)"
     "scanLines E lines ls 0 (Suc c) (initScan as) = Inr s2"
     "lastDel s2 = -1" "lastIns s2 = -1"
     "anns s2 = anns s1 @ [gd (ls ! p) (ls ! q), gi (ls ! q) (ls ! c)] @
               (if markerOf (lines ! c) = Other then [] else segsOf E call)"
     "calls s2 = calls s1 @ (if markerOf (lines ! c) = Other then [] else [call])"
     "scanLines E lines ls 0 (length lines) (initScan as) = Inr s"
     "anns s = anns s2 @ xs" "calls s = calls s2 @ ys"
proof -
  have nc: "\<not> closes (lines ! j)" if "p \<le> j" "j < c" for j
  proof (cases "j < q")
    case True
    then show ?thesis using dl that by (simp add: closes_def)
  next
    case False
    then show ?thesis using il that by (simp add: closes_def)
  qed
  have rs: "runStart lines p c" using pc bd nc by (auto simp: runStart_def)
  obtain s1 s2 s xs ys where g:
    "scanLines E lines ls 0 c (initScan as) = Inr s1"
    "firstOf Delete lines p c (lastDel s1)" "firstOf Insert lines p c (lastIns s1)"
    "scanLines E lines ls 0 (Suc c) (initScan as) = Inr s2"
    "lastDel s2 = nextDel lines c s1" "lastIns s2 = nextIns lines c s1"
    "anns s2 = anns s1 @ emitted E lines ls c s1"
    "calls s2 = calls s1 @ called lines ls c s1"
    "scanLines E lines ls 0 (length lines) (initScan as) = Inr s"
    "anns s = anns s2 @ xs" "calls s = calls s2 @ ys"
    using block_general[OF len rs c, of E as] by blast
  have cur: "lastDel s1 = (if p < q then int p else -1)"
    "lastIns s1 = (if q < c then int q else -1)"
    using firstOf_deletes_then_inserts[OF pq qc dl il g(2) g(3)] by simp_all
  have st: "runOpen s1" "delStart s1 = int p" "insStart c s1 = int q"
    using starts_deletes_then_inserts[OF pq qc pc cur] by simp_all
  have bc: "blockCall lines ls c s1 = call"
    by (simp add: blockCall_def st call)
  have em: "emitted E lines ls c s1 = [gd (ls ! p) (ls ! q), gi (ls ! q) (ls ! c)] @
               (if markerOf (lines ! c) = Other then [] else segsOf E call)"
    using cl st(1) by (simp add: emitted_def blockAnns_def st bc)
  have ca: "called lines ls c s1 = (if markerOf (lines ! c) = Other then [] else [call])"
    using cl st(1) by (simp add: called_def bc)
  have rst: "lastDel s2 = -1" "lastIns s2 = -1"
    using cl by (simp_all add: g(5,6) nextDel_def nextIns_def)
  show ?thesis
    by (rule that[OF g(1) cur(1) cur(2) g(4) rst(1) rst(2) g(7)[unfolded em]
          g(8)[unfolded ca] g(9) g(10) g(11)])
qed


lemma collect_eq:
  "lines = bytes_Split src \<Longrightarrow> ls = lineStartsOf lines \<Longrightarrow>
   collect E src as = scanLines E lines ls 0 (length lines) (initScan as)"
  by (simp add: collect_def Let_def)

lemma linesBetween_set:
  assumes pq: "p \<le> q" and q: "q \<le> length lines"
    and l: "l \<in> set (linesBetween lines (int p) (int q))"
  obtains j where "p \<le> j" "j < q" "l = lines ! j"
proof -
  from l have "l \<in> set (take (q - p) (drop p lines))"
    by (simp only: linesBetween_nat[OF pq])
  then obtain i where i: "i < length (take (q - p) (drop p lines))"
      "take (q - p) (drop p lines) ! i = l"
    unfolding in_set_conv_nth by blast
  have iq: "i < q - p" using i(1) by simp
  have "take (q - p) (drop p lines) ! i = lines ! (p + i)"
    using iq q by simp
  then have "l = lines ! (p + i)" using i(2) by simp
  moreover have "p \<le> p + i" "p + i < q" using iq by simp_all
  ultimately show ?thesis by (rule that[rotated 2])
qed

lemma length_contentOf_between:
  assumes pq: "p \<le> q" and q: "q < length lines"
    and nc: "\<forall>j. p \<le> j \<and> j < q \<longrightarrow> \<not> closes (lines ! j)"
  shows "int (length (contentOf (linesBetween lines (int p) (int q)))) =
         lineStartsOf lines ! q - lineStartsOf lines ! p"
proof -
  have q': "q \<le> length lines" using q by simp
  have "\<forall>l \<in> set (linesBetween lines (int p) (int q)). l \<noteq> []"
  proof
    fix l assume "l \<in> set (linesBetween lines (int p) (int q))"
    then obtain j where j: "p \<le> j" "j < q" "l = lines ! j"
      by (rule linesBetween_set[OF pq q'])
    have "\<not> closes (lines ! j)" using nc j(1,2) by blast
    then show "l \<noteq> []" unfolding j(3) by (rule not_closes_nonempty)
  qed
  then have "int (length (contentOf (linesBetween lines (int p) (int q)))) =
      bytesOf (linesBetween lines (int p) (int q))"
    by (rule length_contentOf)
  then show ?thesis
    using lineStartsOf_between[OF pq q] by simp
qed


lemma all_nat_1_2: "(\<forall>j::nat. 1 \<le> j \<and> j < 2 \<longrightarrow> P j) \<longleftrightarrow> P 1"
proof
  assume "\<forall>j::nat. 1 \<le> j \<and> j < 2 \<longrightarrow> P j"
  then show "P 1" by simp
next
  assume p: "P 1"
  show "\<forall>j::nat. 1 \<le> j \<and> j < 2 \<longrightarrow> P j"
  proof (intro allI impI)
    fix j :: nat assume "1 \<le> j \<and> j < 2"
    then have "j = 1" by simp
    then show "P j" using p by simp
  qed
qed


section \<open>The final line\<close>

lemma bytes_Split_nonempty: "bytes_Split src \<noteq> []"
  by (simp add: bytes_Split_def)

lemma joinLines_bytes_Split: "joinLines (bytes_Split src) = src"
  by (simp add: bytes_Split_def joinLines_genSplit)

lemma bytes_Split_final_newline: "bytes_Split (body @ [newline]) = bytes_Split body @ [[]]"
  by (simp add: bytes_Split_def genSplit_snoc_newline)

lemma lineStartsOf_last:
  assumes "lines \<noteq> []"
  shows "lineStartsOf lines ! (length lines - 1) + int (length (last lines)) =
         int (length (joinLines lines))"
proof -
  have "lines = take (length lines - 1) lines @ [last lines]"
    using assms by (metis append_butlast_last_id butlast_conv_take)
  then have "bytesOf lines = bytesOf (take (length lines - 1) lines @ [last lines])"
    by simp
  then have "bytesOf lines = bytesOf (take (length lines - 1) lines) + int (length (last lines)) + 1"
    by (simp only: bytesOf_simps)
  then show ?thesis
    using assms length_joinLines[OF assms] by (simp add: lineStartsOf_nth)
qed

lemma markerOf_empty: "markerOf [] = Context"
  by (simp add: markerOf_def lineFirstChar_def)

lemma closes_empty: "closes []"
  by (simp add: closes_def markerOf_empty)

lemma closing_general:
  assumes len: "length ls = length lines" and c: "c < length lines"
  obtains s1 s2 s xs ys where
     "scanLines E lines ls 0 c (initScan as) = Inr s1" "scanInv lines c s1"
     "scanLines E lines ls 0 (Suc c) (initScan as) = Inr s2"
     "lastDel s2 = nextDel lines c s1" "lastIns s2 = nextIns lines c s1"
     "anns s2 = anns s1 @ emitted E lines ls c s1"
     "calls s2 = calls s1 @ called lines ls c s1"
     "scanLines E lines ls 0 (length lines) (initScan as) = Inr s"
     "anns s = anns s2 @ xs" "calls s = calls s2 @ ys"
     "\<exists>zs. anns s1 = as @ zs"
proof -
  obtain s1 where s1: "scanLines E lines ls 0 c (initScan as) = Inr s1" "scanInv lines c s1"
     "\<exists>zs. anns s1 = as @ zs"
    using scan_ok[OF scanInv_init len, where n = c and E = E and as1 = as] c
    by (auto simp: initScan_def)
  let ?s2 = "s1\<lparr>lastDel := nextDel lines c s1, lastIns := nextIns lines c s1,
            anns := anns s1 @ emitted E lines ls c s1,
            calls := calls s1 @ called lines ls c s1\<rparr>"
  have st: "step E lines ls c s1 = Inr ?s2" by (rule step_ok[OF s1(2) c len])
  have s2: "scanLines E lines ls 0 (Suc c) (initScan as) = Inr ?s2"
    by (simp add: scanLines_Suc s1(1) st)
  have inv2: "scanInv lines (Suc c) ?s2" by (rule step_inv[OF s1(2) c]) simp_all
  obtain s xs ys where s: "scanLines E lines ls (Suc c) (length lines) ?s2 = Inr s"
    "anns s = anns ?s2 @ xs" "calls s = calls ?s2 @ ys"
    using scan_ok[OF inv2 len, where n = "length lines" and E = E] c by auto
  have fin: "scanLines E lines ls 0 (length lines) (initScan as) = Inr s"
    using scanLines_split[of 0 "Suc c" "length lines" E lines ls "initScan as"] c
    by (simp add: s2 s(1))
  show ?thesis
    by (rule that[OF s1(1) s1(2) s2 _ _ _ _ fin s(2) s(3) s1(3)]) simp_all
qed

lemma runOpen_from_run:
  assumes rs: "runStart lines p c" and pc: "p < c"
    and fd: "firstOf Delete lines p c (lastDel s)" and fi: "firstOf Insert lines p c (lastIns s)"
  shows "runOpen s"
proof (rule ccontr)
  assume "\<not> runOpen s"
  then have n: "lastDel s = -1" "lastIns s = -1" by (simp_all add: runOpen_def)
  have "markerOf (lines ! p) \<noteq> Delete"
    using firstOf_none[of Delete lines p c p] fd n(1) pc by simp
  moreover have "markerOf (lines ! p) \<noteq> Insert"
    using firstOf_none[of Insert lines p c p] fi n(2) pc by simp
  moreover have "\<not> closes (lines ! p)" using rs pc by (auto simp: runStart_def)
  ultimately show False using marker_cases[of "lines ! p"] by simp
qed

lemma scanInv_run:
  assumes "scanInv lines c s" and "runStart lines p c"
  shows "firstOf Delete lines p c (lastDel s) \<and> firstOf Insert lines p c (lastIns s)"
proof -
  obtain p' where p': "runStart lines p' c" "firstOf Delete lines p' c (lastDel s)"
    "firstOf Insert lines p' c (lastIns s)"
    using assms(1) by (auto simp: scanInv_def)
  have "p' = p" by (rule runStart_unique[OF p'(1) assms(2)])
  then show ?thesis using p'(2,3) by simp
qed

section \<open>Where the emitted annotations lie\<close>







section \<open>Sorting and validation\<close>

lemma set_insertAnn: "set (insertAnn a bs) = insert a (set bs)"
  by (induction bs) auto

lemma set_sortAnns: "set (sortAnns as) = set as"
  by (induction as) (auto simp: set_insertAnn)

lemma hasPartialOverlap_iff:
  "hasPartialOverlap as \<longleftrightarrow> (\<exists>a \<in> set as. \<exists>b \<in> set as. partiallyOverlap a b)"
  by (simp add: hasPartialOverlap_def list_ex_iff)

lemma collect_total: "\<exists>s. collect E src as = Inr s"
proof -
  have inv: "scanInv (bytes_Split src) 0 (initScan as)" by (rule scanInv_init)
  have len: "length (lineStartsOf (bytes_Split src)) = length (bytes_Split src)" by simp
  have "\<exists>s'. scanLines E (bytes_Split src) (lineStartsOf (bytes_Split src)) 0
            (length (bytes_Split src)) (initScan as) = Inr s'"
    using scan_ok[OF inv len, where n = "length (bytes_Split src)" and E = E] by auto
  then show ?thesis by (simp add: collect_def Let_def)
qed

section \<open>The cases of the switch\<close>

lemma step_delete_line:
  assumes "k < length lines" and "lines ! k \<noteq> []" and "hd (lines ! k) = CHR ''-''"
  shows "step E lines ls k s = Inr (if lastDel s = -1 then s\<lparr>lastDel := int k\<rparr> else s)"
proof -
  have "lineFirstChar (lines ! k) = CHR ''-''"
    using assms(2,3) by (simp add: lineFirstChar_def hd_conv_nth)
  then show ?thesis by (simp add: step_def index_nat[OF assms(1)])
qed

lemma step_insert_line:
  assumes "k < length lines" and "lines ! k \<noteq> []" and "hd (lines ! k) = CHR ''+''"
  shows "step E lines ls k s = Inr (if lastIns s = -1 then s\<lparr>lastIns := int k\<rparr> else s)"
proof -
  have "lineFirstChar (lines ! k) = CHR ''+''"
    using assms(2,3) by (simp add: lineFirstChar_def hd_conv_nth)
  then show ?thesis by (simp add: step_def index_nat[OF assms(1)])
qed

lemma first_byte_marker:
  assumes "l \<noteq> []"
  shows "hd l = CHR ''-'' \<Longrightarrow> markerOf l = Delete" and "hd l = CHR ''+'' \<Longrightarrow> markerOf l = Insert"
  using assms by (simp_all add: markerOf_def lineFirstChar_def hd_conv_nth)

section \<open>Background annotations lie in their run\<close>



section \<open>Results\<close>

text \<open>
  C1 (amended). Take a maximal run of Delete and Insert lines, from line \<open>p\<close> up to the
  closing line \<open>c\<close>, in which the Delete lines (\<open>p\<close> up to \<open>q\<close>) all come before
  the Insert lines (\<open>q\<close> up to \<open>c\<close>), as a unified diff prints them. When the scan
  reaches \<open>c\<close>, the delete cursor is at the first Delete line and the insert cursor at
  the first Insert line (or unset when there is none), and the scan emits one block: a
  delete background from the start of line \<open>p\<close> to the start of line \<open>q\<close>, and next
  to it an insert background from the start of line \<open>q\<close> to the start of line \<open>c\<close>.
  The lines that start inside the first span are exactly the Delete lines of the run, and
  those that start inside the second are exactly its Insert lines.
\<close>

theorem replace_block_spans:
  assumes lines: "lines = bytes_Split src" and ls: "ls = lineStartsOf lines"
    and pq: "p \<le> q" and qc: "q \<le> c" and pc: "p < c" and c: "c < length lines"
    and bd: "p = 0 \<or> closes (lines ! (p - 1))"
    and dl: "\<forall>j. p \<le> j \<and> j < q \<longrightarrow> markerOf (lines ! j) = Delete"
    and il: "\<forall>j. q \<le> j \<and> j < c \<longrightarrow> markerOf (lines ! j) = Insert"
    and cl: "closes (lines ! c)"
  shows "\<exists>s1 s xs ys.
     scanLines E lines ls 0 c (initScan as) = Inr s1 \<and>
     lastDel s1 = (if p < q then int p else -1) \<and>
     lastIns s1 = (if q < c then int q else -1) \<and>
     collect E src as = Inr s \<and>
     anns s = xs @ [gd (ls ! p) (ls ! q), gi (ls ! q) (ls ! c)] @ ys \<and>
     coversLines ls (gd (ls ! p) (ls ! q)) p q \<and>
     coversLines ls (gi (ls ! q) (ls ! c)) q c"
proof -
  have len: "length ls = length lines" by (simp add: ls)
  let ?call = "(contentOf (linesBetween lines (int p) (int q)),
                contentOf (linesBetween lines (int q) (int c)), ls ! p, ls ! q)"
  obtain s1 s2 s xs ys where g:
     "scanLines E lines ls 0 c (initScan as) = Inr s1"
     "lastDel s1 = (if p < q then int p else -1)"
     "lastIns s1 = (if q < c then int q else -1)"
     "scanLines E lines ls 0 (Suc c) (initScan as) = Inr s2"
     "lastDel s2 = -1" "lastIns s2 = -1"
     "anns s2 = anns s1 @ [gd (ls ! p) (ls ! q), gi (ls ! q) (ls ! c)] @
               (if markerOf (lines ! c) = Other then [] else segsOf E ?call)"
     "calls s2 = calls s1 @ (if markerOf (lines ! c) = Other then [] else [?call])"
     "scanLines E lines ls 0 (length lines) (initScan as) = Inr s"
     "anns s = anns s2 @ xs" "calls s = calls s2 @ ys"
    by (rule block_deletes_then_inserts[OF len pq qc pc c bd dl il cl refl])
  have co: "collect E src as = Inr s" by (simp add: collect_eq[OF lines ls] g(9))
  have cv: "coversLines ls (gd (ls ! p) (ls ! q)) p q" "coversLines ls (gi (ls ! q) (ls ! c)) q c"
    unfolding ls using pq qc c by (auto intro: coversLines_starts)
  have "anns s = anns s1 @ [gd (ls ! p) (ls ! q), gi (ls ! q) (ls ! c)] @
       ((if markerOf (lines ! c) = Other then [] else segsOf E ?call) @ xs)"
    by (simp add: g(10) g(7))
  then show ?thesis using g(1,2,3) co cv by blast
qed

theorem replace_block_spans_witness:
  "\<exists>s1 s xs ys.
     scanLines plainExt [''-a'', ''+b'', ''''] [0, 3, 6] 0 2 (initScan []) = Inr s1 \<and>
     lastDel s1 = 0 \<and> lastIns s1 = 1 \<and>
     collect plainExt (''-a'' @ [newline] @ ''+b'' @ [newline]) [] = Inr s \<and>
     anns s = xs @ [gd 0 3, gi 3 6] @ ys \<and>
     coversLines [0, 3, 6] (gd 0 3) 0 1 \<and> coversLines [0, 3, 6] (gi 3 6) 1 2"
proof -
  let ?src = "''-a'' @ [newline] @ ''+b'' @ [newline]"
  have l: "[''-a'', ''+b'', ''''] = bytes_Split ?src" by code_simp
  have s: "[0, 3, 6] = lineStartsOf [''-a'', ''+b'', '''']" by code_simp
  have d: "\<forall>j. 0 \<le> j \<and> j < 1 \<longrightarrow> markerOf ([''-a'', ''+b'', ''''] ! j) = Delete"
    by (simp add: markerOf_def lineFirstChar_def)
  have i: "\<forall>j. 1 \<le> j \<and> j < 2 \<longrightarrow> markerOf ([''-a'', ''+b'', ''''] ! j) = Insert"
  proof (intro allI impI)
    fix j :: nat assume "1 \<le> j \<and> j < 2"
    then have "j = 1" by simp
    then show "markerOf ([''-a'', ''+b'', ''''] ! j) = Insert"
      by (simp add: markerOf_def lineFirstChar_def)
  qed
  have c: "closes ([''-a'', ''+b'', ''''] ! 2)"
    by (simp add: closes_def markerOf_def lineFirstChar_def)
  have "\<exists>s1 s xs ys.
     scanLines plainExt [''-a'', ''+b'', ''''] [0, 3, 6] 0 2 (initScan []) = Inr s1 \<and>
     lastDel s1 = (if (0::nat) < 1 then int 0 else -1) \<and>
     lastIns s1 = (if (1::nat) < 2 then int 1 else -1) \<and>
     collect plainExt ?src [] = Inr s \<and>
     anns s = xs @ [gd ([0, 3, 6] ! 0) ([0, 3, 6] ! 1), gi ([0, 3, 6] ! 1) ([0, 3, 6] ! 2)] @ ys \<and>
     coversLines [0, 3, 6] (gd ([0, 3, 6] ! 0) ([0, 3, 6] ! 1)) 0 1 \<and>
     coversLines [0, 3, 6] (gi ([0, 3, 6] ! 1) ([0, 3, 6] ! 2)) 1 2"
    by (rule replace_block_spans[OF l s _ _ _ _ _ d i c]) simp_all
  then show ?thesis by simp
qed

text \<open>
  C1 as stated, for every hunk text, fails when an Insert line comes before a Delete line
  in one run: for \<open>+a\<close>, \<open>-b\<close> the delete background runs from offset 3 back to
  offset 0 and covers no line, and the insert background covers the Delete line.
\<close>

theorem insert_before_delete_counterexample:
  "collect plainExt (''+a'' @ [newline] @ ''-b'' @ [newline]) [] =
     Inr \<lparr>lastDel = -1, lastIns = -1, anns = [gd 3 0, gi 0 6],
          calls = [([], [CHR 0x00, CHR ''a'', newline, CHR 0x00, CHR ''b'', newline], 3, 0)]\<rparr> \<and>
   map markerOf (bytes_Split (''+a'' @ [newline] @ ''-b'' @ [newline])) = [Insert, Delete, Context] \<and>
   lineStartsOf (bytes_Split (''+a'' @ [newline] @ ''-b'' @ [newline])) = [0, 3, 6] \<and>
   \<not> coversLines [0, 3, 6] (gd 3 0) 1 2 \<and>
   \<not> coversLines [0, 3, 6] (gi 0 6) 0 1"
proof -
  have 1: "collect plainExt (''+a'' @ [newline] @ ''-b'' @ [newline]) [] =
     Inr \<lparr>lastDel = -1, lastIns = -1, anns = [gd 3 0, gi 0 6],
          calls = [([], [CHR 0x00, CHR ''a'', newline, CHR 0x00, CHR ''b'', newline], 3, 0)]\<rparr>"
    by code_simp
  have 2: "map markerOf (bytes_Split (''+a'' @ [newline] @ ''-b'' @ [newline])) = [Insert, Delete, Context]"
    by code_simp
  have 3: "lineStartsOf (bytes_Split (''+a'' @ [newline] @ ''-b'' @ [newline])) = [0, 3, 6]"
    by code_simp
  have 4: "\<not> coversLines [0, 3, 6] (gd 3 0) 1 2"
    unfolding coversLines_def gd_def by (simp add: nth_Cons' ) (rule exI[of _ 1], simp)
  have 5: "\<not> coversLines [0, 3, 6] (gi 0 6) 0 1"
    unfolding coversLines_def gi_def by (simp add: nth_Cons') (rule exI[of _ 1], simp)
  show ?thesis using 1 2 3 4 5 by blast
qed

text \<open>
  C2 (amended). In a hunk text that ends with a newline, the last line is empty, hence a
  Context line at the offset where the text ends. A run of Delete and Insert lines that
  reaches up to it is closed by it: the scan emits the run's two background annotations
  and its intraline segments, as at any other Context line, and leaves no run open.
\<close>

theorem final_newline_closes_trailing_run:
  assumes src: "src = body @ [newline]"
    and lines: "lines = bytes_Split src" and ls: "ls = lineStartsOf lines"
    and c: "c = length lines - 1" and pc: "p < c"
    and bd: "p = 0 \<or> closes (lines ! (p - 1))"
    and run: "\<forall>j. p \<le> j \<and> j < c \<longrightarrow> \<not> closes (lines ! j)"
  shows "lines ! c = [] \<and> markerOf (lines ! c) = Context \<and> ls ! c = int (length src) \<and>
    (\<exists>s1 s. scanLines E lines ls 0 c (initScan as) = Inr s1 \<and> runOpen s1 \<and>
        collect E src as = Inr s \<and> lastDel s = -1 \<and> lastIns s = -1 \<and>
        anns s = anns s1 @ blockAnns ls c s1 @ segsOf E (blockCall lines ls c s1) \<and>
        calls s = calls s1 @ [blockCall lines ls c s1])"
proof -
  have len: "length ls = length lines" by (simp add: ls)
  have ne: "lines \<noteq> []" by (simp add: lines bytes_Split_nonempty)
  have cl: "c < length lines" using ne c by simp
  have sc: "Suc c = length lines" using ne c by simp
  have lastl: "last lines = []" by (simp add: lines src bytes_Split_final_newline)
  have e: "lines ! c = []" using lastl ne by (simp add: c last_conv_nth)
  have m: "markerOf (lines ! c) = Context" by (simp add: e markerOf_empty)
  have clo: "closes (lines ! c)" by (simp add: e closes_empty)
  have off: "ls ! c = int (length src)"
    using lineStartsOf_last[OF ne] lastl
    by (simp add: ls c lines joinLines_bytes_Split)
  have rs: "runStart lines p c" using pc bd run by (auto simp: runStart_def)
  obtain s1 s2 s xs ys where g:
     "scanLines E lines ls 0 c (initScan as) = Inr s1" "scanInv lines c s1"
     "scanLines E lines ls 0 (Suc c) (initScan as) = Inr s2"
     "lastDel s2 = nextDel lines c s1" "lastIns s2 = nextIns lines c s1"
     "anns s2 = anns s1 @ emitted E lines ls c s1"
     "calls s2 = calls s1 @ called lines ls c s1"
     "scanLines E lines ls 0 (length lines) (initScan as) = Inr s"
     "anns s = anns s2 @ xs" "calls s = calls s2 @ ys"
     "\<exists>zs. anns s1 = as @ zs"
    by (rule closing_general[OF len cl])
  have ss: "s = s2" using g(3) g(8) by (simp add: sc)
  have op: "runOpen s1"
    using scanInv_run[OF g(2) rs] runOpen_from_run[OF rs pc] by blast
  have co: "collect E src as = Inr s" by (simp add: collect_eq[OF lines ls] g(8))
  have r: "lastDel s = -1" "lastIns s = -1"
    using clo by (simp_all add: ss g(4,5) nextDel_def nextIns_def)
  have a: "anns s = anns s1 @ blockAnns ls c s1 @ segsOf E (blockCall lines ls c s1)"
    using clo op m by (simp add: ss g(6) emitted_def)
  have k: "calls s = calls s1 @ [blockCall lines ls c s1]"
    using clo op m by (simp add: ss g(7) called_def)
  show ?thesis using e m off g(1) op co r a k by blast
qed

theorem final_newline_closes_trailing_run_witness:
  "\<exists>s1 s. scanLines plainExt [''-a'', ''''] [0, 3] 0 1 (initScan []) = Inr s1 \<and> runOpen s1 \<and>
        collect plainExt (''-a'' @ [newline]) [] = Inr s \<and> lastDel s = -1 \<and> lastIns s = -1 \<and>
        anns s = anns s1 @ blockAnns [0, 3] 1 s1 @ segsOf plainExt (blockCall [''-a'', ''''] [0, 3] 1 s1) \<and>
        calls s = calls s1 @ [blockCall [''-a'', ''''] [0, 3] 1 s1]"
proof -
  have l: "[''-a'', ''''] = bytes_Split (''-a'' @ [newline])" by code_simp
  have s: "[0, 3] = lineStartsOf [''-a'', '''']" by code_simp
  have r: "\<forall>j. 0 \<le> j \<and> j < 1 \<longrightarrow> \<not> closes ([''-a'', ''''] ! j)"
    by (simp add: closes_def markerOf_def lineFirstChar_def)
  show ?thesis
    using final_newline_closes_trailing_run[OF refl l s, of 1 0 plainExt "[]"] r by simp
qed

text \<open>
  C2 as stated fails: the loop has no step for the end of the line sequence. The text
  \<open>-a\<close>, \<open>+b\<close> without a final newline ends in an Insert line, and the scan returns
  with both cursors still set and no annotation.
\<close>

theorem unterminated_trailing_run_counterexample:
  "bytes_Split (''-a'' @ [newline] @ ''+b'') = [''-a'', ''+b''] \<and>
   collect plainExt (''-a'' @ [newline] @ ''+b'') [] =
     Inr \<lparr>lastDel = 0, lastIns = 1, anns = [], calls = []\<rparr>"
  by code_simp

text \<open>
  C3. Classification never fails: at a line whose first byte is \<open>-\<close> (a Delete line)
  an iteration returns the state with the delete cursor set to this line if it was
  unset, and nothing else changed; likewise for \<open>+\<close> (an Insert line) and the insert
  cursor. An empty line is a Context line: the iteration there takes the default case,
  leaves both cursors unset and, if a run is open, appends its block; and a run is open
  whenever Delete or Insert lines reach from some line \<open>p\<close> up to the empty line, the
  cursors then being the first Delete and the first Insert line of that run. The scan of
  any text returns without a panic.
\<close>

theorem line_classification:
  assumes lines: "lines = bytes_Split src" and ls: "ls = lineStartsOf lines"
    and k: "k < length lines"
  shows
    "(lines ! k \<noteq> [] \<and> hd (lines ! k) = CHR ''-'' \<longrightarrow>
        markerOf (lines ! k) = Delete \<and>
        step E lines ls k s = Inr (if lastDel s = -1 then s\<lparr>lastDel := int k\<rparr> else s)) \<and>
     (lines ! k \<noteq> [] \<and> hd (lines ! k) = CHR ''+'' \<longrightarrow>
        markerOf (lines ! k) = Insert \<and>
        step E lines ls k s = Inr (if lastIns s = -1 then s\<lparr>lastIns := int k\<rparr> else s)) \<and>
     (lines ! k = [] \<longrightarrow>
        markerOf (lines ! k) = Context \<and>
        (\<exists>s1 s2. scanLines E lines ls 0 k (initScan as) = Inr s1 \<and>
           step E lines ls k s1 = Inr s2 \<and>
           lastDel s2 = -1 \<and> lastIns s2 = -1 \<and>
           anns s2 = anns s1 @
             (if runOpen s1
              then blockAnns ls k s1 @ segsOf E (blockCall lines ls k s1) else []) \<and>
           (p < k \<and> (p = 0 \<or> closes (lines ! (p - 1))) \<and>
            (\<forall>j. p \<le> j \<and> j < k \<longrightarrow> \<not> closes (lines ! j)) \<longrightarrow>
              runOpen s1 \<and> firstOf Delete lines p k (lastDel s1) \<and>
              firstOf Insert lines p k (lastIns s1)))) \<and>
     (\<exists>s. collect E src as = Inr s)"
proof -
  have len: "length ls = length lines" by (simp add: ls)
  have d: "lines ! k \<noteq> [] \<and> hd (lines ! k) = CHR ''-'' \<longrightarrow>
        markerOf (lines ! k) = Delete \<and>
        step E lines ls k s = Inr (if lastDel s = -1 then s\<lparr>lastDel := int k\<rparr> else s)"
    using first_byte_marker(1) step_delete_line[OF k] by blast
  have i: "lines ! k \<noteq> [] \<and> hd (lines ! k) = CHR ''+'' \<longrightarrow>
        markerOf (lines ! k) = Insert \<and>
        step E lines ls k s = Inr (if lastIns s = -1 then s\<lparr>lastIns := int k\<rparr> else s)"
    using first_byte_marker(2) step_insert_line[OF k] by blast
  obtain s1 s2 t xs ys where g:
     "scanLines E lines ls 0 k (initScan as) = Inr s1" "scanInv lines k s1"
     "scanLines E lines ls 0 (Suc k) (initScan as) = Inr s2"
     "lastDel s2 = nextDel lines k s1" "lastIns s2 = nextIns lines k s1"
     "anns s2 = anns s1 @ emitted E lines ls k s1"
     "calls s2 = calls s1 @ called lines ls k s1"
     "scanLines E lines ls 0 (length lines) (initScan as) = Inr t"
     "anns t = anns s2 @ xs" "calls t = calls s2 @ ys"
     "\<exists>zs. anns s1 = as @ zs"
    by (rule closing_general[OF len k])
  have st: "step E lines ls k s1 = Inr s2"
    using g(1) g(3) by (simp add: scanLines_Suc)
  have co: "\<exists>s. collect E src as = Inr s"
    using g(8) by (simp add: collect_eq[OF lines ls])
  have e: "markerOf (lines ! k) = Context \<and>
        (\<exists>s1 s2. scanLines E lines ls 0 k (initScan as) = Inr s1 \<and>
           step E lines ls k s1 = Inr s2 \<and>
           lastDel s2 = -1 \<and> lastIns s2 = -1 \<and>
           anns s2 = anns s1 @
             (if runOpen s1
              then blockAnns ls k s1 @ segsOf E (blockCall lines ls k s1) else []) \<and>
           (p < k \<and> (p = 0 \<or> closes (lines ! (p - 1))) \<and>
            (\<forall>j. p \<le> j \<and> j < k \<longrightarrow> \<not> closes (lines ! j)) \<longrightarrow>
              runOpen s1 \<and> firstOf Delete lines p k (lastDel s1) \<and>
              firstOf Insert lines p k (lastIns s1)))"
    if em: "lines ! k = []"
  proof -
    have m: "markerOf (lines ! k) = Context" by (simp add: em markerOf_empty)
    have clo: "closes (lines ! k)" by (simp add: em closes_empty)
    have r: "lastDel s2 = -1" "lastIns s2 = -1"
      using clo by (simp_all add: g(4,5) nextDel_def nextIns_def)
    have a: "anns s2 = anns s1 @
             (if runOpen s1
              then blockAnns ls k s1 @ segsOf E (blockCall lines ls k s1) else [])"
      using clo m by (simp add: g(6) emitted_def)
    have run: "runOpen s1 \<and> firstOf Delete lines p k (lastDel s1) \<and>
              firstOf Insert lines p k (lastIns s1)"
      if h: "p < k \<and> (p = 0 \<or> closes (lines ! (p - 1))) \<and>
            (\<forall>j. p \<le> j \<and> j < k \<longrightarrow> \<not> closes (lines ! j))"
    proof -
      have rs: "runStart lines p k" using h by (auto simp: runStart_def)
      have pk: "p < k" using h by simp
      have f: "firstOf Delete lines p k (lastDel s1) \<and> firstOf Insert lines p k (lastIns s1)"
        by (rule scanInv_run[OF g(2) rs])
      then show ?thesis using runOpen_from_run[OF rs pk] by blast
    qed
    show ?thesis using m g(1) st r a run by blast
  qed
  show ?thesis using d i e co by blast
qed

theorem line_classification_witness:
  "step plainExt [''-a'', [], ''+b''] [0, 3, 4] 0 (initScan []) =
     Inr ((initScan [])\<lparr>lastDel := 0\<rparr>) \<and>
   step plainExt [''-a'', [], ''+b''] [0, 3, 4] 2 (initScan []) =
     Inr ((initScan [])\<lparr>lastIns := 2\<rparr>) \<and>
   markerOf ([''-a'', [], ''+b''] ! 1) = Context \<and>
   (\<exists>s1 s2. scanLines plainExt [''-a'', [], ''+b''] [0, 3, 4] 0 1 (initScan []) = Inr s1 \<and>
       step plainExt [''-a'', [], ''+b''] [0, 3, 4] 1 s1 = Inr s2 \<and>
       lastDel s2 = -1 \<and> lastIns s2 = -1 \<and>
       anns s2 = anns s1 @
         (if runOpen s1
          then blockAnns [0, 3, 4] 1 s1 @
               segsOf plainExt (blockCall [''-a'', [], ''+b''] [0, 3, 4] 1 s1)
          else []) \<and>
       runOpen s1 \<and> firstOf Delete [''-a'', [], ''+b''] 0 1 (lastDel s1) \<and>
       firstOf Insert [''-a'', [], ''+b''] 0 1 (lastIns s1)) \<and>
   (\<exists>s. collect plainExt (''-a'' @ [newline] @ [newline] @ ''+b'') [] = Inr s)"
proof -
  let ?src = "''-a'' @ [newline] @ [newline] @ ''+b''"
  let ?lines = "[''-a'', [], ''+b'']"
  have l: "?lines = bytes_Split ?src" by code_simp
  have s: "[0, 3, 4] = lineStartsOf ?lines" by code_simp
  have r: "\<forall>j. 0 \<le> j \<and> j < 1 \<longrightarrow> \<not> closes (?lines ! j)"
    by (simp add: closes_def markerOf_def lineFirstChar_def)
  have a: "step plainExt ?lines [0, 3, 4] 0 (initScan []) = Inr ((initScan [])\<lparr>lastDel := 0\<rparr>)"
    using line_classification[OF l s, of 0 plainExt "initScan []" "[]" 0]
    by (simp add: initScan_def)
  have b: "step plainExt ?lines [0, 3, 4] 2 (initScan []) = Inr ((initScan [])\<lparr>lastIns := 2\<rparr>)"
    using line_classification[OF l s, of 2 plainExt "initScan []" "[]" 0]
    by (simp add: initScan_def)
  have c: "markerOf (?lines ! 1) = Context \<and>
   (\<exists>s1 s2. scanLines plainExt ?lines [0, 3, 4] 0 1 (initScan []) = Inr s1 \<and>
       step plainExt ?lines [0, 3, 4] 1 s1 = Inr s2 \<and>
       lastDel s2 = -1 \<and> lastIns s2 = -1 \<and>
       anns s2 = anns s1 @
         (if runOpen s1
          then blockAnns [0, 3, 4] 1 s1 @
               segsOf plainExt (blockCall ?lines [0, 3, 4] 1 s1)
          else []) \<and>
       runOpen s1 \<and> firstOf Delete ?lines 0 1 (lastDel s1) \<and>
       firstOf Insert ?lines 0 1 (lastIns s1)) \<and>
   (\<exists>s. collect plainExt ?src [] = Inr s)"
    using line_classification[OF l s, of 1 plainExt "initScan []" "[]" 0] r
    by simp
  show ?thesis using a b c by blast
qed

text \<open>
  C4 (amended). For a run whose Delete lines (\<open>p\<close> up to \<open>q\<close>) come before its Insert
  lines (\<open>q\<close> up to \<open>c\<close>), closed by a line that is not a hunk header, the left
  content passed to \<open>HighlightedDiffFunc\<close> is the concatenation, over the Delete lines
  in order, of a NUL byte, the line without its marker, and a newline; the right content
  is built the same way from the Insert lines; the offsets are the starts of lines
  \<open>p\<close> and \<open>q\<close>. Each content has as many bytes as its lines take in the text.
\<close>

theorem differ_contents:
  assumes lines: "lines = bytes_Split src" and ls: "ls = lineStartsOf lines"
    and pq: "p \<le> q" and qc: "q \<le> c" and pc: "p < c" and c: "c < length lines"
    and bd: "p = 0 \<or> closes (lines ! (p - 1))"
    and dl: "\<forall>j. p \<le> j \<and> j < q \<longrightarrow> markerOf (lines ! j) = Delete"
    and il: "\<forall>j. q \<le> j \<and> j < c \<longrightarrow> markerOf (lines ! j) = Insert"
    and cl: "closes (lines ! c)" and nh: "markerOf (lines ! c) \<noteq> Other"
    and left: "leftContent = contentOf (linesBetween lines (int p) (int q))"
    and right: "rightContent = contentOf (linesBetween lines (int q) (int c))"
  shows "\<exists>s ys zs. collect E src as = Inr s \<and>
           calls s = ys @ [(leftContent, rightContent, ls ! p, ls ! q)] @ zs \<and>
           int (length leftContent) = ls ! q - ls ! p \<and>
           int (length rightContent) = ls ! c - ls ! q"
proof -
  have len: "length ls = length lines" by (simp add: ls)
  let ?call = "(contentOf (linesBetween lines (int p) (int q)),
                contentOf (linesBetween lines (int q) (int c)), ls ! p, ls ! q)"
  obtain s1 s2 s xs ys where g:
     "scanLines E lines ls 0 c (initScan as) = Inr s1"
     "lastDel s1 = (if p < q then int p else -1)"
     "lastIns s1 = (if q < c then int q else -1)"
     "scanLines E lines ls 0 (Suc c) (initScan as) = Inr s2"
     "lastDel s2 = -1" "lastIns s2 = -1"
     "anns s2 = anns s1 @ [gd (ls ! p) (ls ! q), gi (ls ! q) (ls ! c)] @
               (if markerOf (lines ! c) = Other then [] else segsOf E ?call)"
     "calls s2 = calls s1 @ (if markerOf (lines ! c) = Other then [] else [?call])"
     "scanLines E lines ls 0 (length lines) (initScan as) = Inr s"
     "anns s = anns s2 @ xs" "calls s = calls s2 @ ys"
    by (rule block_deletes_then_inserts[OF len pq qc pc c bd dl il cl refl])
  have co: "collect E src as = Inr s" by (simp add: collect_eq[OF lines ls] g(9))
  have ca: "calls s = calls s1 @ [(leftContent, rightContent, ls ! p, ls ! q)] @ ys"
    using nh by (simp add: g(11) g(8) left right)
  have ll: "int (length leftContent) = ls ! q - ls ! p"
    unfolding left ls using pq qc c dl
    by (intro length_contentOf_between) (auto simp: closes_def)
  have lr: "int (length rightContent) = ls ! c - ls ! q"
    unfolding right ls using qc c il
    by (intro length_contentOf_between) (auto simp: closes_def)
  show ?thesis using co ca ll lr by blast
qed

theorem differ_contents_witness:
  "\<exists>s ys zs. collect plainExt (''-a'' @ [newline] @ ''+b'' @ [newline]) [] = Inr s \<and>
      calls s = ys @ [([CHR 0x00, CHR ''a'', newline], [CHR 0x00, CHR ''b'', newline], 0, 3)] @ zs"
proof -
  let ?src = "''-a'' @ [newline] @ ''+b'' @ [newline]"
  let ?lines = "[''-a'', ''+b'', '''']"
  have l: "?lines = bytes_Split ?src" by code_simp
  have s: "[0, 3, 6] = lineStartsOf ?lines" by code_simp
  have d: "\<forall>j. 0 \<le> j \<and> j < 1 \<longrightarrow> markerOf (?lines ! j) = Delete"
    by (simp add: markerOf_def lineFirstChar_def)
  have i: "\<forall>j. 1 \<le> j \<and> j < 2 \<longrightarrow> markerOf (?lines ! j) = Insert"
    unfolding all_nat_1_2 by (simp add: markerOf_def lineFirstChar_def)
  have c: "closes (?lines ! 2)"
    by (simp add: closes_def markerOf_def lineFirstChar_def)
  have h: "markerOf (?lines ! 2) \<noteq> Other"
    by (simp add: markerOf_def lineFirstChar_def)
  have lc: "[CHR 0x00, CHR ''a'', newline] = contentOf (linesBetween ?lines (int 0) (int 1))"
    by (simp add: contentOf_def linesBetween_def nulBody_def)
  have rc: "[CHR 0x00, CHR ''b'', newline] = contentOf (linesBetween ?lines (int 1) (int 2))"
    by (simp add: contentOf_def linesBetween_def nulBody_def)
  have "\<exists>s ys zs. collect plainExt ?src [] = Inr s \<and>
      calls s = ys @ [([CHR 0x00, CHR ''a'', newline], [CHR 0x00, CHR ''b'', newline],
                       [0, 3, 6] ! 0, [0, 3, 6] ! 1)] @ zs \<and>
      int (length [CHR 0x00, CHR ''a'', newline]) = [0, 3, 6] ! 1 - [0, 3, 6] ! 0 \<and>
      int (length [CHR 0x00, CHR ''b'', newline]) = [0, 3, 6] ! 2 - [0, 3, 6] ! 1"
    by (rule differ_contents[OF l s _ _ _ _ _ d i c h lc rc]) simp_all
  then show ?thesis by simp
qed

text \<open>
  C4 as stated fails: the contents are not the stripped lines alone. For \<open>-a\<close>,
  \<open>+b\<close> the spec's left content is \<open>a\<close> and a newline; the code passes a NUL byte
  first. And for \<open>-a\<close>, \<open>+b\<close>, \<open>-c\<close>, where a Delete line follows an Insert line
  in one run, the right content is not built from the Insert line alone: it holds the
  Delete line \<open>-c\<close> too.
\<close>

theorem differ_contents_counterexample:
  "collect plainExt (''-a'' @ [newline] @ ''+b'' @ [newline]) [] =
     Inr \<lparr>lastDel = -1, lastIns = -1, anns = [gd 0 3, gi 3 6],
          calls = [([CHR 0x00, CHR ''a'', newline], [CHR 0x00, CHR ''b'', newline], 0, 3)]\<rparr> \<and>
   specContent [''-a''] = [CHR ''a'', newline] \<and>
   specContent [''+b''] = [CHR ''b'', newline] \<and>
   [CHR 0x00, CHR ''a'', newline] \<noteq> specContent [''-a''] \<and>
   [CHR 0x00, CHR ''b'', newline] \<noteq> specContent [''+b''] \<and>
   map markerOf (bytes_Split (''-a'' @ [newline] @ ''+b'' @ [newline] @ ''-c'' @ [newline] @ '' x'')) =
     [Delete, Insert, Delete, Context] \<and>
   collect plainExt (''-a'' @ [newline] @ ''+b'' @ [newline] @ ''-c'' @ [newline] @ '' x'') [] =
     Inr \<lparr>lastDel = -1, lastIns = -1, anns = [gd 0 3, gi 3 9],
          calls = [([CHR 0x00, CHR ''a'', newline],
                    [CHR 0x00, CHR ''b'', newline, CHR 0x00, CHR ''c'', newline], 0, 3)]\<rparr> \<and>
   [CHR 0x00, CHR ''b'', newline, CHR 0x00, CHR ''c'', newline] \<noteq> contentOf [''+b'']"
proof -
  have 1: "collect plainExt (''-a'' @ [newline] @ ''+b'' @ [newline]) [] =
     Inr \<lparr>lastDel = -1, lastIns = -1, anns = [gd 0 3, gi 3 6],
          calls = [([CHR 0x00, CHR ''a'', newline], [CHR 0x00, CHR ''b'', newline], 0, 3)]\<rparr>"
    by code_simp
  have 2: "specContent [''-a''] = [CHR ''a'', newline]" "specContent [''+b''] = [CHR ''b'', newline]"
    by (simp_all add: specContent_def strippedLine_def)
  have 3: "map markerOf (bytes_Split (''-a'' @ [newline] @ ''+b'' @ [newline] @ ''-c'' @ [newline] @ '' x'')) =
     [Delete, Insert, Delete, Context]"
    by code_simp
  have 4: "collect plainExt (''-a'' @ [newline] @ ''+b'' @ [newline] @ ''-c'' @ [newline] @ '' x'') [] =
     Inr \<lparr>lastDel = -1, lastIns = -1, anns = [gd 0 3, gi 3 9],
          calls = [([CHR 0x00, CHR ''a'', newline],
                    [CHR 0x00, CHR ''b'', newline, CHR 0x00, CHR ''c'', newline], 0, 3)]\<rparr>"
    by code_simp
  have 5: "[CHR 0x00, CHR ''b'', newline, CHR 0x00, CHR ''c'', newline] \<noteq> contentOf [''+b'']"
    by (simp add: contentOf_def nulBody_def)
  show ?thesis unfolding 2 using 1 3 4 5 by simp
qed




text \<open>
  C6. When two of the collected annotations partially overlap, \<open>highlightDiff\<close>
  returns a nil byte slice and the error of the validation pass. Whenever it returns an
  error, the byte slice it returns is nil, whatever \<open>annotate.Annotate\<close> had written;
  and it always returns, without a panic.
\<close>

theorem partial_overlap_rejected:
  "(hd_Annotate E src = (as, None) \<and> collect E src as = Inr s \<and>
      a \<in> set (anns s) \<and> b \<in> set (anns s) \<and> partiallyOverlap a b \<longrightarrow>
      highlightDiff E src = Inr (None, Some invariantError)) \<and>
   (highlightDiff E src = Inr (out, err) \<and> err \<noteq> None \<longrightarrow> out = None) \<and>
   (\<exists>r. highlightDiff E src = Inr r)"
proof (intro conjI impI)
  assume h: "hd_Annotate E src = (as, None) \<and> collect E src as = Inr s \<and>
      a \<in> set (anns s) \<and> b \<in> set (anns s) \<and> partiallyOverlap a b"
  then have "hasPartialOverlap (sortAnns (anns s))"
    unfolding hasPartialOverlap_iff set_sortAnns by blast
  then show "highlightDiff E src = Inr (None, Some invariantError)"
    using h by (simp add: highlightDiff_def annotate_Annotate_def)
next
  assume h: "highlightDiff E src = Inr (out, err) \<and> err \<noteq> None"
  obtain as0 e0 where a0: "hd_Annotate E src = (as0, e0)" by (cases "hd_Annotate E src")
  obtain s0 where s0: "collect E src as0 = Inr s0" using collect_total by blast
  obtain o1 e1 where a1: "annotate_Annotate E src (sortAnns (anns s0)) = (o1, e1)"
    by (cases "annotate_Annotate E src (sortAnns (anns s0))")
  show "out = None"
    using h by (auto simp: highlightDiff_def a0 s0 a1 split: if_splits)
next
  obtain as0 e0 where a0: "hd_Annotate E src = (as0, e0)" by (cases "hd_Annotate E src")
  obtain s0 where s0: "collect E src as0 = Inr s0" using collect_total by blast
  obtain o1 e1 where a1: "annotate_Annotate E src (sortAnns (anns s0)) = (o1, e1)"
    by (cases "annotate_Annotate E src (sortAnns (anns s0))")
  show "\<exists>r. highlightDiff E src = Inr r"
    by (simp add: highlightDiff_def a0 s0 a1)
qed

theorem partial_overlap_rejected_witness:
  "partiallyOverlap \<lparr>Start = 1, End = 4, Left = ''<b>'', Right = ''</b>'', WantInner = 0\<rparr> (gd 0 3) \<and>
   highlightDiff crossingExt (''-a'' @ [newline] @ '' x'') = Inr (None, Some invariantError)"
proof -
  let ?src = "''-a'' @ [newline] @ '' x''"
  let ?b = "\<lparr>Start = 1, End = 4, Left = ''<b>'', Right = ''</b>'', WantInner = 0\<rparr>"
  let ?s = "\<lparr>lastDel = -1, lastIns = -1, anns = [?b, gd 0 3, gi 3 3],
            calls = [([CHR 0x00, CHR ''a'', newline], [], 0, 3)]\<rparr>"
  have 1: "hd_Annotate crossingExt ?src = ([?b], None)"
    by (simp add: crossingExt_def plainExt_def)
  have 2: "collect crossingExt ?src [?b] = Inr ?s" by code_simp
  have 3: "partiallyOverlap ?b (gd 0 3)"
    by (simp add: partiallyOverlap_def rangesIntersect_def contains_def gd_def)
  show ?thesis
    using partial_overlap_rejected[of crossingExt ?src "[?b]" ?s ?b "gd 0 3"] 1 2 3
    by simp
qed

text \<open>
  C7. The line scanner's offsets partition the text: line 0 starts at offset 0, each
  next line starts one byte (the newline) after the end of the line before it, every
  line is the slice of the text at its offset, the byte between two lines is a newline,
  and the last line ends where the text ends.
\<close>

theorem lineStarts_partition:
  assumes "lines = bytes_Split src" and "lineStarts = lineStartsOf lines"
  shows "lines \<noteq> [] \<and> length lineStarts = length lines \<and> lineStarts ! 0 = 0 \<and>
    (\<forall>i. Suc i < length lines \<longrightarrow>
       lineStarts ! Suc i = lineStarts ! i + int (length (lines ! i)) + 1) \<and>
    (\<forall>i < length lines.
       take (length (lines ! i)) (drop (nat (lineStarts ! i)) src) = lines ! i) \<and>
    (\<forall>i. Suc i < length lines \<longrightarrow>
       src ! (nat (lineStarts ! i) + length (lines ! i)) = newline) \<and>
    lineStarts ! (length lines - 1) + int (length (last lines)) = int (length src)"
proof -
  have ne: "lines \<noteq> []" by (simp add: assms bytes_Split_def)
  have join: "joinLines lines = src"
    by (simp add: assms bytes_Split_def joinLines_genSplit)
  have len: "length lineStarts = length lines" by (simp add: assms)
  have zero: "lineStarts ! 0 = 0" using ne by (simp add: assms lineStartsOf_nth)
  have suc: "\<forall>i. Suc i < length lines \<longrightarrow>
       lineStarts ! Suc i = lineStarts ! i + int (length (lines ! i)) + 1"
    by (simp add: assms(2) lineStartsOf_Suc)
  have dr: "drop (nat (lineStarts ! i)) src =
      lines ! i @ (if Suc i < length lines then newline # joinLines (drop (Suc i) lines) else [])"
    if "i < length lines" for i
    using drop_joinLines[OF that] that by (simp add: join assms(2) lineStartsOf_nth)
  have slice: "\<forall>i < length lines.
       take (length (lines ! i)) (drop (nat (lineStarts ! i)) src) = lines ! i"
    by (simp add: dr)
  have sep: "src ! (nat (lineStarts ! i) + length (lines ! i)) = newline"
    if "Suc i < length lines" for i
  proof -
    have i: "i < length lines" using that by simp
    have "drop (nat (lineStarts ! i)) src ! length (lines ! i) = newline"
      using that by (simp add: dr[OF i] nth_append)
    moreover have "nat (lineStarts ! i) + length (lines ! i) < length src"
    proof (rule ccontr)
      assume "\<not> ?thesis"
      then have "length (drop (nat (lineStarts ! i)) src) \<le> length (lines ! i)" by simp
      then show False using that by (simp add: dr[OF i])
    qed
    ultimately show ?thesis by (simp add: nth_drop)
  qed
  have fin: "lineStarts ! (length lines - 1) + int (length (last lines)) = int (length src)"
  proof -
    have "take (length lines - 1) lines = butlast lines" by (simp add: butlast_conv_take)
    then have "bytesOf lines = bytesOf (take (length lines - 1) lines) + int (length (last lines)) + 1"
      using ne by (metis append_butlast_last_id bytesOf_simps(1,2,3) add.right_neutral add.assoc)
    then show ?thesis
      using ne length_joinLines[OF ne] by (simp add: join assms(2) lineStartsOf_nth)
  qed
  show ?thesis using ne len zero suc slice sep fin by blast
qed

theorem lineStarts_partition_witness:
  "bytes_Split (''-a'' @ [newline] @ ''+bc'') = [''-a'', ''+bc''] \<and>
   lineStartsOf [''-a'', ''+bc''] = [0, 3] \<and>
   take 3 (drop 3 (''-a'' @ [newline] @ ''+bc'')) = ''+bc'' \<and>
   (3::int) + 3 = int (length (''-a'' @ [newline] @ ''+bc''))"
proof -
  have l: "bytes_Split (''-a'' @ [newline] @ ''+bc'') = [''-a'', ''+bc'']"
    by (simp add: bytes_Split_def newline_def)
  have s: "lineStartsOf [''-a'', ''+bc''] = [0, 3]"
    by (simp add: lineStartsOf_def)
  show ?thesis
    using lineStarts_partition[OF l[symmetric] s[symmetric]] l s by simp
qed



text \<open>
  C10. When the wrapped value is neither an \<open>issues.Comment\<close> nor an
  \<open>issues.Event\<close>, each of \<open>TemplateName\<close>, \<open>CreatedAt\<close> and \<open>ID\<close> panics with
  the error "unknown item type" followed by the type of the value, and returns nothing.
\<close>

theorem timelineItem_unknown_panics:
  assumes "\<forall>c. TimelineItem i \<noteq> Comment c" and "\<forall>e. TimelineItem i \<noteq> Event e"
  shows "TemplateName i = Inl (Panic (''unknown item type '' @ typeName (TimelineItem i))) \<and>
         CreatedAt i = Inl (Panic (''unknown item type '' @ typeName (TimelineItem i))) \<and>
         ID i = Inl (Panic (''unknown item type '' @ typeName (TimelineItem i)))"
  using assms
  by (cases "TimelineItem i")
     (simp_all add: TemplateName_def CreatedAt_def ID_def unknownItemType_def)

theorem timelineItem_unknown_panics_witness:
  "TemplateName \<lparr>TimelineItem = OtherValue ''int''\<rparr> = Inl (Panic ''unknown item type int'') \<and>
   CreatedAt \<lparr>TimelineItem = OtherValue ''int''\<rparr> = Inl (Panic ''unknown item type int'') \<and>
   ID \<lparr>TimelineItem = OtherValue ''int''\<rparr> = Inl (Panic ''unknown item type int'')"
  using timelineItem_unknown_panics[of "\<lparr>TimelineItem = OtherValue ''int''\<rparr>"]
  by simp

end
